theory Spec2Isabelle
  imports Main
begin

unbundle bit_operations_syntax

section \<open>Python primitives used by ipwraplib.py\<close>

text \<open>
  The module is Python 2 code: it matches \<^verbatim>\<open>str\<close> patterns against the output of
  \<^verbatim>\<open>subprocess.check_output\<close> and imports \<^verbatim>\<open>distutils.spawn\<close>. Strings are therefore
  byte strings, modelled as \<^typ>\<open>string\<close>; integers are unbounded and modelled as \<^typ>\<open>int\<close>.
  Exceptions are values: a function that can raise returns \<open>py_exception + 'a\<close>, with
  \<open>Inl\<close> for the exception that leaves it.
\<close>

datatype py_exception =
  ValueError | TypeError | OSError | CalledProcessError | SocketError | IOError | KeyboardInterrupt

definition LF :: char where
  "LF = CHR 0x0A"

definition CR :: char where
  "CR = CHR 0x0D"

definition dquote :: char where
  "dquote = CHR 0x22"

text \<open>\<^verbatim>\<open>isspace\<close> of the C locale, which is what \<^verbatim>\<open>str.split()\<close>, \<^verbatim>\<open>str.strip()\<close>,
  \<^verbatim>\<open>int()\<close> and the regular expression class \<^verbatim>\<open>\s\<close> use on byte strings:
  tab, line feed, vertical tab, form feed, carriage return and space.\<close>

definition isspace :: "char \<Rightarrow> bool" where
  "isspace c = (c \<in> set [CHR 0x09, CHR 0x0A, CHR 0x0B, CHR 0x0C, CHR 0x0D, CHR 0x20])"

definition strip :: "string \<Rightarrow> string" where
  "strip s = rev (dropWhile isspace (rev (dropWhile isspace s)))"

text \<open>\<^verbatim>\<open>s.rstrip(chars)\<close>: drops the longest suffix made of characters of \<open>chars\<close>.\<close>

definition rstrip :: "string \<Rightarrow> string \<Rightarrow> string" where
  "rstrip chars s = rev (dropWhile (\<lambda>c. c \<in> set chars) (rev s))"

text \<open>\<^verbatim>\<open>s.split(sep)\<close> for a one-character separator: empty pieces are kept, and the
  result always has at least one piece.\<close>

fun split_on :: "char \<Rightarrow> string \<Rightarrow> string list" where
  "split_on sep [] = [[]]"
| "split_on sep (c # cs) =
     (if c = sep then [] # split_on sep cs
      else (case split_on sep cs of
              [] \<Rightarrow> [[c]]
            | p # ps \<Rightarrow> (c # p) # ps))"

text \<open>\<^verbatim>\<open>s.split()\<close>: the maximal runs of non-whitespace characters, in order.
  \<open>cur\<close> is the field being read.\<close>

fun split_ws_from :: "string \<Rightarrow> string \<Rightarrow> string list" where
  "split_ws_from cur [] = (if cur = [] then [] else [cur])"
| "split_ws_from cur (c # cs) =
     (if isspace c then (if cur = [] then split_ws_from [] cs else cur # split_ws_from [] cs)
      else split_ws_from (cur @ [c]) cs)"

definition split_ws :: "string \<Rightarrow> string list" where
  "split_ws s = split_ws_from [] s"

text \<open>\<^verbatim>\<open>s.splitlines()\<close> on a byte string: a line ends at LF, CR LF or CR; the terminators
  are dropped and a terminator at the very end opens no further line.\<close>

fun splitlines_from :: "string \<Rightarrow> string \<Rightarrow> string list" where
  "splitlines_from cur [] = (if cur = [] then [] else [cur])"
| "splitlines_from cur [c] =
     (if c = LF \<or> c = CR then [cur] else [cur @ [c]])"
| "splitlines_from cur (c # d # cs) =
     (if c = LF then cur # splitlines_from [] (d # cs)
      else if c = CR then (if d = LF then cur # splitlines_from [] cs
                           else cur # splitlines_from [] (d # cs))
      else splitlines_from (cur @ [c]) (d # cs))"

definition splitlines :: "string \<Rightarrow> string list" where
  "splitlines s = splitlines_from [] s"

text \<open>Iterating over a file opened in text mode: every line keeps its LF; the last line
  has none when the file does not end with one.\<close>

fun file_lines_from :: "string \<Rightarrow> string \<Rightarrow> string list" where
  "file_lines_from cur [] = (if cur = [] then [] else [cur])"
| "file_lines_from cur (c # cs) =
     (if c = LF then (cur @ [c]) # file_lines_from [] cs
      else file_lines_from (cur @ [c]) cs)"

definition file_lines :: "string \<Rightarrow> string list" where
  "file_lines s = file_lines_from [] s"

text \<open>\<^verbatim>\<open>sep.join(parts)\<close>.\<close>

fun join :: "string \<Rightarrow> string list \<Rightarrow> string" where
  "join sep [] = []"
| "join sep [p] = p"
| "join sep (p # q # ps) = p @ sep @ join sep (q # ps)"

text \<open>\<^verbatim>\<open>str.upper()\<close> and the case folding of \<^verbatim>\<open>re.I\<close> on byte strings: ASCII letters only.\<close>

definition to_upper :: "char \<Rightarrow> char" where
  "to_upper c = (let k = (of_char c :: int) in if 97 \<le> k \<and> k \<le> 122 then char_of (k - 32) else c)"

definition to_lower :: "char \<Rightarrow> char" where
  "to_lower c = (let k = (of_char c :: int) in if 65 \<le> k \<and> k \<le> 90 then char_of (k + 32) else c)"

definition upper :: "string \<Rightarrow> string" where
  "upper s = map to_upper s"

definition is_lower :: "char \<Rightarrow> bool" where
  "is_lower c = (97 \<le> (of_char c :: int) \<and> (of_char c :: int) \<le> 122)"

subsection \<open>Integers and their text forms\<close>

text \<open>The value of a character as a digit (CPython's \<^verbatim>\<open>_PyLong_DigitValue\<close>): 0 to 9 for
  the decimal digits, 10 to 35 for the letters in either case, 37 for anything else.\<close>

definition digit_val :: "char \<Rightarrow> int" where
  "digit_val c =
     (let k = (of_char c :: int) in
      if 48 \<le> k \<and> k \<le> 57 then k - 48
      else if 97 \<le> k \<and> k \<le> 122 then k - 87
      else if 65 \<le> k \<and> k \<le> 90 then k - 55
      else 37)"

definition digit_char :: "int \<Rightarrow> char" where
  "digit_char d = char_of (48 + d)"

text \<open>The digits of a non-negative integer in base 2 or 10, most significant first,
  without leading zeros (\<open>0\<close> is the single digit 0).\<close>

function digits :: "int \<Rightarrow> int \<Rightarrow> string" where
  "digits b n = (if n < b \<or> b < 2 then [digit_char n] else digits b (n div b) @ [digit_char (n mod b)])"
  by pat_completeness auto
termination
  by (relation "measure (\<lambda>(b, n). nat n)") (auto intro!: int_div_less_self)

declare digits.simps [simp del]

text \<open>\<^verbatim>\<open>str(n)\<close> and \<^verbatim>\<open>bin(n)\<close> of an integer.\<close>

definition py_str :: "int \<Rightarrow> string" where
  "py_str n = (if n < 0 then ''-'' else '''') @ digits 10 \<bar>n\<bar>"

definition py_bin :: "int \<Rightarrow> string" where
  "py_bin n = (if n < 0 then ''-'' else '''') @ ''0b'' @ digits 2 \<bar>n\<bar>"

text \<open>\<^verbatim>\<open>int(s, base)\<close> for the bases the module uses (2, 10 and 16), as Python 2 reads a
  byte string: whitespace around the literal is ignored, one sign may lead, base 2 accepts
  a \<^verbatim>\<open>0b\<close> and base 16 a \<^verbatim>\<open>0x\<close> prefix (either case), and what remains must be one or more
  digits of the base. Anything else raises ValueError.\<close>

definition has_base_prefix :: "int \<Rightarrow> string \<Rightarrow> bool" where
  "has_base_prefix base u =
     (case u of
        z # x # _ \<Rightarrow> z = CHR ''0'' \<and>
           ((base = 16 \<and> (x = CHR ''x'' \<or> x = CHR ''X'')) \<or>
            (base = 2 \<and> (x = CHR ''b'' \<or> x = CHR ''B'')))
      | _ \<Rightarrow> False)"

definition digits_value :: "int \<Rightarrow> string \<Rightarrow> int" where
  "digits_value base v = foldl (\<lambda>a c. a * base + digit_val c) 0 v"

definition py_int :: "int \<Rightarrow> string \<Rightarrow> py_exception + int" where
  "py_int base s =
     (let t = strip s;
          neg = (case t of c # _ \<Rightarrow> c = CHR ''-'' | [] \<Rightarrow> False);
          u = (case t of c # r \<Rightarrow> if c = CHR ''-'' \<or> c = CHR ''+'' then r else t | [] \<Rightarrow> t);
          v = (if has_base_prefix base u then drop 2 u else u)
      in if v \<noteq> [] \<and> list_all (\<lambda>c. digit_val c < base) v
         then Inr ((if neg then - 1 else 1) * digits_value base v)
         else Inl ValueError)"

section \<open>The IP codec\<close>

text \<open>\<^verbatim>\<open>'0' * (length - len(bin_str)) + bin_str\<close>: a negative repeat count gives the empty
  string, so a longer string is returned as it is.\<close>

definition pad_binary :: "string \<Rightarrow> int \<Rightarrow> string" where
  "pad_binary bin_str len = replicate (nat (len - int (length bin_str))) (CHR ''0'') @ bin_str"

fun ip_to_bin_loop :: "string \<Rightarrow> string list \<Rightarrow> py_exception + string" where
  "ip_to_bin_loop bin_str [] = Inr bin_str"
| "ip_to_bin_loop bin_str (byte_int_str # rest) =
     (case py_int 10 byte_int_str of
        Inl e \<Rightarrow> Inl e
      | Inr byte_int \<Rightarrow>
          ip_to_bin_loop (bin_str @ pad_binary (drop 2 (py_bin byte_int)) 8) rest)"

definition ip_to_bin :: "string \<Rightarrow> py_exception + string" where
  "ip_to_bin ip_str = ip_to_bin_loop [] (split_on (CHR ''.'') ip_str)"

fun bin_to_ip_loop :: "string \<Rightarrow> string list \<Rightarrow> nat list \<Rightarrow> py_exception + string list" where
  "bin_to_ip_loop ip_bin ip_byte_strs [] = Inr ip_byte_strs"
| "bin_to_ip_loop ip_bin ip_byte_strs (i # is) =
     (case py_int 2 (take 8 (drop i ip_bin)) of
        Inl e \<Rightarrow> Inl e
      | Inr byte_int \<Rightarrow> bin_to_ip_loop ip_bin (ip_byte_strs @ [py_str byte_int]) is)"

definition bin_to_ip :: "string \<Rightarrow> py_exception + string" where
  "bin_to_ip ip_bin =
     (case bin_to_ip_loop ip_bin [] [0, 8, 16, 24] of
        Inl e \<Rightarrow> Inl e
      | Inr ip_byte_strs \<Rightarrow> Inr (join ''.'' ip_byte_strs))"

definition int_to_ip :: "int \<Rightarrow> py_exception + string" where
  "int_to_ip ip_int = bin_to_ip (pad_binary (drop 2 (py_bin ip_int)) 32)"

text \<open>The text-to-integer direction as \<open>mask_ip\<close> performs it:
  \<^verbatim>\<open>ip_bin = ip_to_bin(ip); ip_int = int(ip_bin, 2)\<close>.\<close>

definition ip_to_int :: "string \<Rightarrow> py_exception + int" where
  "ip_to_int ip =
     (case ip_to_bin ip of
        Inl e \<Rightarrow> Inl e
      | Inr ip_bin \<Rightarrow> py_int 2 ip_bin)"

section \<open>The subnet calculator\<close>

text \<open>\<open>mask_ip ip prefix_len\<close>, with \<open>None\<close> for an omitted \<open>prefix_len\<close>. Unpacking
  \<^verbatim>\<open>ip.split('/')\<close> into two names raises ValueError unless there are exactly two pieces.\<close>

definition mask_ip_args :: "string \<Rightarrow> int option \<Rightarrow> py_exception + (string \<times> int)" where
  "mask_ip_args ip prefix_len =
     (case prefix_len of
        Some n \<Rightarrow> Inr (ip, n)
      | None \<Rightarrow>
          (case split_on (CHR ''/'') ip of
             [ip', prefix_len_str] \<Rightarrow>
               (case py_int 10 prefix_len_str of
                  Inl e \<Rightarrow> Inl e
                | Inr n \<Rightarrow> Inr (ip', n))
           | _ \<Rightarrow> Inl ValueError))"

definition mask_ip_range :: "string \<Rightarrow> int \<Rightarrow> py_exception + (string \<times> string)" where
  "mask_ip_range ip prefix_len =
     (case ip_to_int ip of
        Inl e \<Rightarrow> Inl e
      | Inr ip_int \<Rightarrow>
          (let mask_bin = replicate (nat prefix_len) (CHR ''1'') @
                          replicate (nat (32 - prefix_len)) (CHR ''0'')
           in case py_int 2 mask_bin of
                Inl e \<Rightarrow> Inl e
              | Inr mask_int \<Rightarrow>
                  (let lower_bound_int = ip_int AND mask_int;
                       subnet_int = 4294967295 XOR mask_int;
                       upper_bound_int = lower_bound_int + subnet_int
                   in case int_to_ip lower_bound_int of
                        Inl e \<Rightarrow> Inl e
                      | Inr lower_bound_str \<Rightarrow>
                          (case int_to_ip upper_bound_int of
                             Inl e \<Rightarrow> Inl e
                           | Inr upper_bound_str \<Rightarrow> Inr (lower_bound_str, upper_bound_str)))))"

definition mask_ip :: "string \<Rightarrow> int option \<Rightarrow> py_exception + (string \<times> string)" where
  "mask_ip ip prefix_len =
     (case mask_ip_args ip prefix_len of
        Inl e \<Rightarrow> Inl e
      | Inr (ip', n) \<Rightarrow> mask_ip_range ip' n)"

section \<open>The wifi status parser\<close>

text \<open>The three patterns of \<open>get_wifi_info\<close>, each applied with \<^verbatim>\<open>re.search\<close> to one line of
  \<^verbatim>\<open>output.splitlines()\<close>. Such a line holds neither LF nor CR, so \<^verbatim>\<open>.\<close> matches every
  character of it, \<^verbatim>\<open>^\<close> only its start and \<^verbatim>\<open>$\<close> only its end. Each function returns
  \<^verbatim>\<open>match.group(1)\<close>, or \<open>None\<close> when the pattern does not match.\<close>

text \<open>\<^verbatim>\<open>^(\S+)\s+\S\<close>: the line starts with a run of non-whitespace, which is the group,
  then whitespace, then one more non-whitespace character.\<close>

definition interface_match :: "string \<Rightarrow> string option" where
  "interface_match line =
     (let tok = takeWhile (\<lambda>c. \<not> isspace c) line;
          rest = dropWhile (\<lambda>c. \<not> isspace c) line
      in if tok \<noteq> [] \<and> rest \<noteq> [] \<and> dropWhile isspace rest \<noteq> [] then Some tok else None)"

text \<open>\<^verbatim>\<open>^.*access point: ([a-fA-F0-9:]+)\s*$\<close> with \<^verbatim>\<open>re.I\<close>: before the trailing whitespace
  stands a run of hexadecimal digits and colons, which is the group; the label in any
  letter case, ending in its space, stands right before the group, so the group is the
  whole run.\<close>

definition is_mac_char :: "char \<Rightarrow> bool" where
  "is_mac_char c = (digit_val c < 16 \<or> c = CHR '':'')"

definition mac_match :: "string \<Rightarrow> string option" where
  "mac_match line =
     (let s = rev (dropWhile isspace (rev line));
          grp = rev (takeWhile is_mac_char (rev s));
          before = rev (dropWhile is_mac_char (rev s))
      in if grp \<noteq> [] \<and> take 14 (rev (map to_lower before)) = rev ''access point: ''
         then Some grp else None)"

text \<open>The text after the last occurrence of \<open>pat\<close> in a string: what a greedy \<^verbatim>\<open>.*\<close>
  in front of a literal selects.\<close>

fun after_last :: "string \<Rightarrow> string \<Rightarrow> string option" where
  "after_last pat [] = (if pat = [] then Some [] else None)"
| "after_last pat (c # cs) =
     (case after_last pat cs of
        Some r \<Rightarrow> Some r
      | None \<Rightarrow> if take (length pat) (c # cs) = pat then Some (drop (length pat) (c # cs)) else None)"

text \<open>\<^verbatim>\<open>^.*SSID:"(.*)"\s*$\<close>: the last character before the trailing whitespace is the
  closing quote; the greedy prefix takes the last \<^verbatim>\<open>SSID:"\<close> that ends before it, and the
  group is what stands between the two.\<close>

definition ssid_match :: "string \<Rightarrow> string option" where
  "ssid_match line =
     (let s = rev (dropWhile isspace (rev line))
      in if s \<noteq> [] \<and> last s = dquote then after_last (''SSID:'' @ [dquote]) (butlast s) else None)"

text \<open>Python's \<^verbatim>\<open>not x\<close> for a value that is \<^verbatim>\<open>None\<close> or a string.\<close>

definition falsy :: "string option \<Rightarrow> bool" where
  "falsy x = (x = None \<or> x = Some [])"

type_synonym wifi_info = "string option \<times> string option \<times> string option"

text \<open>One pass of the loop body up to the test for \<^verbatim>\<open>break\<close>; the state is
  \<open>(interface, ssid, mac)\<close>, in the order of the returned tuple.\<close>

fun wifi_line :: "wifi_info \<Rightarrow> string \<Rightarrow> wifi_info" where
  "wifi_line (interface, ssid, mac) line =
     (let interface' = (case interface_match line of Some g \<Rightarrow> Some g | None \<Rightarrow> interface);
          mac' = (if falsy mac then (case mac_match line of Some g \<Rightarrow> Some g | None \<Rightarrow> mac) else mac);
          ssid' = (if falsy ssid then (case ssid_match line of Some g \<Rightarrow> Some g | None \<Rightarrow> ssid) else ssid)
      in (interface', ssid', mac'))"

fun found_both :: "wifi_info \<Rightarrow> bool" where
  "found_both (interface, ssid, mac) = (ssid \<noteq> None \<and> mac \<noteq> None)"

fun wifi_scan :: "wifi_info \<Rightarrow> string list \<Rightarrow> wifi_info" where
  "wifi_scan st [] = st"
| "wifi_scan st (line # rest) =
     (let st' = wifi_line st line
      in if found_both st' then st' else wifi_scan st' rest)"

section \<open>The default route parser\<close>

text \<open>The loop of \<open>get_default_route\<close>; the result is \<open>(interface, ip)\<close>.\<close>

fun route_scan :: "string list \<Rightarrow> string option \<times> string option" where
  "route_scan [] = (None, None)"
| "route_scan (line # rest) =
     (let fields = split_ws (rstrip [CR, LF] line)
      in if length fields < 7 then route_scan rest
         else if fields ! 0 = ''default'' \<and> fields ! 1 = ''via'' \<and> fields ! 3 = ''dev''
              then (Some (fields ! 4), Some (fields ! 2))
              else route_scan rest)"

section \<open>The operating system, as the module sees it\<close>

text \<open>What the module asks of its environment: whether \<^verbatim>\<open>PATH\<close> is set, where
  \<^verbatim>\<open>find_executable\<close> finds a command, what \<^verbatim>\<open>subprocess.check_output\<close> returns or raises for
  an argument list, what \<^verbatim>\<open>socket.gethostbyname\<close> returns or raises, and what reading a file
  gives. \<open>SocketError\<close> stands for \<^verbatim>\<open>socket.error\<close> and its subclasses.\<close>

record os_env =
  has_PATH :: bool
  find_executable :: "string \<Rightarrow> string option"
  check_output :: "string list \<Rightarrow> py_exception + string"
  gethostbyname :: "string \<Rightarrow> py_exception + string"
  read_file :: "string \<Rightarrow> py_exception + string"

definition command_path :: "os_env \<Rightarrow> string \<Rightarrow> string \<Rightarrow> string" where
  "command_path env cmd fallback =
     (if \<not> has_PATH env \<or> falsy (find_executable env cmd) then fallback else cmd)"

text \<open>\<^verbatim>\<open>except (OSError, subprocess.CalledProcessError)\<close>.\<close>

definition command_failure :: "py_exception \<Rightarrow> bool" where
  "command_failure e = (e = OSError \<or> e = CalledProcessError)"

definition get_wifi_info :: "os_env \<Rightarrow> py_exception + wifi_info" where
  "get_wifi_info env =
     (let iwconfig_cmd = command_path env ''iwconfig'' ''/sbin/iwconfig''
      in case check_output env [iwconfig_cmd] of
           Inl e \<Rightarrow> if command_failure e then Inr (None, None, None) else Inl e
         | Inr output \<Rightarrow> Inr (wifi_scan (None, None, None) (splitlines output)))"

definition get_default_route :: "os_env \<Rightarrow> py_exception + (string option \<times> string option)" where
  "get_default_route env =
     (let ip_cmd = command_path env ''ip'' ''/sbin/ip''
      in case check_output env [ip_cmd, ''route'', ''show''] of
           Inl e \<Rightarrow> if command_failure e then Inr (None, None) else Inl e
         | Inr output \<Rightarrow> Inr (route_scan (splitlines output)))"

definition dig_ip :: "os_env \<Rightarrow> string \<Rightarrow> py_exception + string option" where
  "dig_ip env domain =
     (let dig_cmd = command_path env ''dig'' ''/usr/bin/dig''
      in case check_output env [dig_cmd, ''+short'', ''+time=1'', ''+tries=2'', domain] of
           Inl e \<Rightarrow> if command_failure e then Inr None else Inl e
         | Inr output \<Rightarrow>
             (case splitlines output of
                [] \<Rightarrow> Inr None
              | line # _ \<Rightarrow> Inr (Some (strip line))))"

definition dns_query :: "os_env \<Rightarrow> string \<Rightarrow> py_exception + string option" where
  "dns_query env domain =
     (case gethostbyname env domain of
        Inl e \<Rightarrow> if e = SocketError then Inr None else Inl e
      | Inr addr \<Rightarrow> Inr (Some addr))"

section \<open>The ARP table\<close>

text \<open>An entry of the table: the dictionary with the keys \<^verbatim>\<open>ip\<close>, \<^verbatim>\<open>hwtype\<close>, \<^verbatim>\<open>flags\<close>,
  \<^verbatim>\<open>mac\<close>, \<^verbatim>\<open>mask\<close> and \<^verbatim>\<open>interface\<close>. The field for the key \<^verbatim>\<open>mask\<close> is named \<open>netmask\<close> and
  the one for \<^verbatim>\<open>interface\<close> is named \<open>iface\<close>, the names \<open>mask\<close> and \<open>interface\<close> being taken;
  the other fields are named as their keys.\<close>

record arp_entry =
  ip :: string
  hwtype :: int
  flags :: int
  mac :: string
  netmask :: string
  iface :: string

type_synonym arp_table = "string \<rightharpoonup> arp_entry"

text \<open>The loop over the lines of the file. \<open>header\<close> is the flag of the source; a line
  that does not unpack into six fields, or whose \<^verbatim>\<open>hwtype\<close> or \<^verbatim>\<open>flags\<close> is not a base-16
  literal, is passed over (\<^verbatim>\<open>continue\<close>).\<close>

fun arp_loop :: "bool \<Rightarrow> arp_table \<Rightarrow> string list \<Rightarrow> arp_table" where
  "arp_loop header table [] = table"
| "arp_loop header table (line # rest) =
     (if header then arp_loop False table rest
      else (case split_ws (rstrip [CR, LF] line) of
              [f_ip, f_hwtype, f_flags, f_mac, f_mask, f_interface] \<Rightarrow>
                (case py_int 16 f_hwtype of
                   Inl e \<Rightarrow> arp_loop header table rest
                 | Inr hw \<Rightarrow>
                     (case py_int 16 f_flags of
                        Inl e \<Rightarrow> arp_loop header table rest
                      | Inr fl \<Rightarrow>
                          arp_loop header
                            (table(f_ip \<mapsto> \<lparr>ip = f_ip, hwtype = hw, flags = fl, mac = upper f_mac,
                                             netmask = f_mask, iface = f_interface\<rparr>))
                            rest))
            | _ \<Rightarrow> arp_loop header table rest))"

definition get_arp_table :: "os_env \<Rightarrow> string \<Rightarrow> py_exception + arp_table" where
  "get_arp_table env proc_path =
     (case read_file env proc_path of
        Inl e \<Rightarrow> Inl e
      | Inr content \<Rightarrow> Inr (arp_loop True Map.empty (file_lines content)))"

definition get_mac_from_ip :: "os_env \<Rightarrow> string \<Rightarrow> py_exception + string option" where
  "get_mac_from_ip env addr =
     (case get_arp_table env ''/proc/net/arp'' of
        Inl e \<Rightarrow> Inl e
      | Inr arp_table \<Rightarrow>
          (case arp_table addr of
             Some entry \<Rightarrow> Inr (Some (mac entry))
           | None \<Rightarrow> Inr None))"

section \<open>Vocabulary of the statements\<close>

text \<open>The specification's words, kept apart from the code above: an IPv4 address is a
  32-bit unsigned value whose text is four dot-separated decimal octets, and the mask of a
  prefix length has that many leading 1-bits followed by 0-bits up to 32.\<close>

definition octets :: "int \<Rightarrow> int list" where
  "octets addr = [addr div 2 ^ 24 mod 256, addr div 2 ^ 16 mod 256, addr div 2 ^ 8 mod 256, addr mod 256]"

definition dotted_quad :: "int \<Rightarrow> string" where
  "dotted_quad addr = join ''.'' (map py_str (octets addr))"

definition prefix_mask :: "int \<Rightarrow> int" where
  "prefix_mask n = push_bit (nat (32 - n)) (mask (nat n))"

definition is_bits :: "string \<Rightarrow> bool" where
  "is_bits bs = list_all (\<lambda>c. digit_val c < 2) bs"

text \<open>The eight binary digits \<open>ip_to_bin\<close> appends for one octet.\<close>

definition byte_bits :: "int \<Rightarrow> string" where
  "byte_bits n = pad_binary (digits 2 n) 8"

text \<open>A canonical dotted-decimal text: four pieces between dots, each the decimal numeral of
  an octet as \<open>str\<close> prints it, that is digits only, no leading zero except for the
  numeral 0 itself, and a value of at most 255. \<open>int\<close> reads more spellings than these.\<close>

definition canonical_octet :: "string \<Rightarrow> bool" where
  "canonical_octet p =
     (p \<noteq> [] \<and> list_all (\<lambda>c. digit_val c < 10) p \<and> (hd p = CHR ''0'' \<longrightarrow> length p = 1)
      \<and> digits_value 10 p \<le> 255)"

definition canonical_ipv4 :: "string \<Rightarrow> bool" where
  "canonical_ipv4 s =
     (case split_on (CHR ''.'') s of
        [a, b, c, d] \<Rightarrow> canonical_octet a \<and> canonical_octet b \<and> canonical_octet c \<and> canonical_octet d
      | _ \<Rightarrow> False)"

text \<open>What a pattern finds in a list of lines: all its groups in order, whether there is
  one, the first and the last. \<open>chosen_ssid\<close> is the first SSID group that is not empty,
  and the empty string when every group is empty.\<close>

definition matches :: "(string \<Rightarrow> string option) \<Rightarrow> string list \<Rightarrow> string list" where
  "matches f ls = List.map_filter f ls"

definition seen :: "(string \<Rightarrow> string option) \<Rightarrow> string list \<Rightarrow> bool" where
  "seen f ls = (matches f ls \<noteq> [])"

definition first_match :: "(string \<Rightarrow> string option) \<Rightarrow> string list \<Rightarrow> string option" where
  "first_match f ls = (case matches f ls of [] \<Rightarrow> None | g # _ \<Rightarrow> Some g)"

definition last_match :: "(string \<Rightarrow> string option) \<Rightarrow> string list \<Rightarrow> string option" where
  "last_match f ls = (case rev (matches f ls) of [] \<Rightarrow> None | g # _ \<Rightarrow> Some g)"

definition chosen_ssid :: "string list \<Rightarrow> string" where
  "chosen_ssid ls = (case filter (\<lambda>g. g \<noteq> []) (matches ssid_match ls) of [] \<Rightarrow> [] | g # _ \<Rightarrow> g)"

text \<open>The SSID held after reading some lines without stopping.\<close>

definition ssid_state :: "string list \<Rightarrow> string option" where
  "ssid_state ls = (if seen ssid_match ls then Some (chosen_ssid ls) else None)"

text \<open>The fields of a line of the routing table, and the lines that describe the default
  route: at least seven fields, the first \<^verbatim>\<open>default\<close>, the second \<^verbatim>\<open>via\<close>, the fourth
  \<^verbatim>\<open>dev\<close>.\<close>

definition route_fields :: "string \<Rightarrow> string list" where
  "route_fields line = split_ws (rstrip [CR, LF] line)"

definition is_default_route :: "string list \<Rightarrow> bool" where
  "is_default_route fs =
     (7 \<le> length fs \<and> fs ! 0 = ''default'' \<and> fs ! 1 = ''via'' \<and> fs ! 3 = ''dev'')"

text \<open>The entry that one line of the ARP file stands for, if any: exactly six fields, the
  second and the third base-16 integers, the fourth put in upper case.\<close>

definition arp_line_entry :: "string \<Rightarrow> arp_entry option" where
  "arp_line_entry line =
     (case split_ws (rstrip [CR, LF] line) of
        [f1, f2, f3, f4, f5, f6] \<Rightarrow>
          (case (py_int 16 f2, py_int 16 f3) of
             (Inr hw, Inr fl) \<Rightarrow>
               Some \<lparr>ip = f1, hwtype = hw, flags = fl, mac = upper f4, netmask = f5, iface = f6\<rparr>
           | _ \<Rightarrow> None)
      | _ \<Rightarrow> None)"

text \<open>The entries of the lines after the first, in order, and the last of them for a key.\<close>

definition arp_entries :: "string list \<Rightarrow> arp_entry list" where
  "arp_entries ls = List.map_filter arp_line_entry (tl ls)"

definition last_entry_for :: "string \<Rightarrow> arp_entry list \<Rightarrow> arp_entry option" where
  "last_entry_for k es = (case rev (filter (\<lambda>e. ip e = k) es) of [] \<Rightarrow> None | e # _ \<Rightarrow> Some e)"

section \<open>Facts about the primitives\<close>

subsection \<open>Digits\<close>

lemma char_eq_int: "c = d \<longleftrightarrow> (of_char c :: int) = of_char d"
  by simp

lemma of_char_digit_char: "0 \<le> d \<Longrightarrow> d < 10 \<Longrightarrow> (of_char (digit_char d) :: int) = 48 + d"
  unfolding digit_char_def by (simp add: take_bit_int_eq_self)

lemma digit_val_digit_char: "0 \<le> d \<Longrightarrow> d < 10 \<Longrightarrow> digit_val (digit_char d) = d"
  by (simp add: digit_val_def of_char_digit_char)

lemma digit_val_lt10: "digit_val c < 10 \<longleftrightarrow> 48 \<le> (of_char c :: int) \<and> (of_char c :: int) \<le> 57"
  by (auto simp: digit_val_def Let_def)

lemma digit_val_nonneg: "0 \<le> digit_val c"
  by (auto simp: digit_val_def Let_def)


lemma isspace_code: "isspace c \<longleftrightarrow> (of_char c :: int) \<in> {9, 10, 11, 12, 13, 32}"
  unfolding isspace_def by (auto simp: char_eq_int simp del: of_char_eq_iff)

lemma digit_not_space: "digit_val c < 10 \<Longrightarrow> \<not> isspace c"
  by (auto simp: digit_val_lt10 isspace_code)

lemma digit_not_special:
  assumes "digit_val c < 10"
  shows "c \<noteq> CHR ''-''" "c \<noteq> CHR ''+''" "c \<noteq> CHR ''b''" "c \<noteq> CHR ''B''" "c \<noteq> CHR ''.''" "c \<noteq> CHR ''/''"
  using assms by (auto simp: digit_val_lt10 char_eq_int simp del: of_char_eq_iff)

lemma strip_id: "s \<noteq> [] \<Longrightarrow> \<not> isspace (hd s) \<Longrightarrow> \<not> isspace (last s) \<Longrightarrow> strip s = s"
proof -
  assume a: "s \<noteq> []" "\<not> isspace (hd s)" "\<not> isspace (last s)"
  have 1: "dropWhile isspace s = s" using a by (simp add: dropWhile_eq_self_iff)
  have 2: "dropWhile isspace (rev s) = rev s" using a by (simp add: dropWhile_eq_self_iff hd_rev)
  show ?thesis by (simp add: strip_def 1 2)
qed

lemma digits_value_snoc: "digits_value b (v @ [c]) = digits_value b v * b + digit_val c"
  by (simp add: digits_value_def)

lemma digits_value_Nil: "digits_value b [] = 0"
  by (simp add: digits_value_def)

lemma digits_value_append:
  "digits_value b (xs @ ys) = digits_value b xs * b ^ length ys + digits_value b ys"
proof (induction ys rule: rev_induct)
  case Nil
  then show ?case by (simp add: digits_value_Nil)
next
  case (snoc y ys)
  have "digits_value b (xs @ ys @ [y]) = digits_value b ((xs @ ys) @ [y])" by simp
  also have "\<dots> = digits_value b (xs @ ys) * b + digit_val y" by (rule digits_value_snoc)
  finally show ?case by (simp add: snoc.IH digits_value_snoc algebra_simps)
qed

lemma digits_nonempty: "digits b n \<noteq> []"
  by (subst digits.simps) simp

lemma mod_digit: "2 \<le> b \<Longrightarrow> b \<le> 10 \<Longrightarrow> digit_val (digit_char (n mod b)) = n mod b"
proof -
  assume b: "2 \<le> b" "b \<le> 10"
  then have "0 \<le> n mod b" "n mod b < b" by simp_all
  moreover from this have "n mod b < 10" using b by linarith
  ultimately show ?thesis by (simp add: digit_val_digit_char)
qed

lemma digits_all: "2 \<le> b \<Longrightarrow> b \<le> 10 \<Longrightarrow> 0 \<le> n \<Longrightarrow> list_all (\<lambda>c. digit_val c < b) (digits b n)"
proof (induction b n rule: digits.induct)
  case (1 b n)
  show ?case
  proof (cases "n < b \<or> b < 2")
    case True
    with 1 show ?thesis by (subst digits.simps) (simp add: digit_val_digit_char)
  next
    case False
    with 1 have "list_all (\<lambda>c. digit_val c < b) (digits b (n div b))"
      by (simp add: pos_imp_zdiv_nonneg_iff)
    moreover have "digit_val (digit_char (n mod b)) < b"
      using 1 by (simp add: mod_digit)
    ultimately show ?thesis using False by (subst digits.simps) simp
  qed
qed

lemma digits_value_digits: "2 \<le> b \<Longrightarrow> b \<le> 10 \<Longrightarrow> 0 \<le> n \<Longrightarrow> digits_value b (digits b n) = n"
proof (induction b n rule: digits.induct)
  case (1 b n)
  show ?case
  proof (cases "n < b \<or> b < 2")
    case True
    with 1 show ?thesis
      by (subst digits.simps) (simp add: digits_value_def digit_val_digit_char)
  next
    case False
    with 1 have "digits_value b (digits b (n div b)) = n div b"
      by (simp add: pos_imp_zdiv_nonneg_iff)
    moreover have "digit_val (digit_char (n mod b)) = n mod b"
      using 1 by (simp add: mod_digit)
    ultimately show ?thesis using False
      by (subst digits.simps) (simp add: digits_value_snoc)
  qed
qed


subsection \<open>Reading integers\<close>

lemma py_int_digits:
  assumes "v \<noteq> []" "list_all (\<lambda>c. digit_val c < base) v" "base = 2 \<or> base = 10"
  shows "py_int base v = Inr (digits_value base v)"
proof -
  have d10: "list_all (\<lambda>c. digit_val c < 10) v"
    using assms(2,3) by (auto simp: list_all_iff)
  then have all: "\<And>c. c \<in> set v \<Longrightarrow> digit_val c < 10" by (simp add: list_all_iff)
  have "hd v \<in> set v" "last v \<in> set v" using assms(1) by simp_all
  then have h: "digit_val (hd v) < 10" "digit_val (last v) < 10" using all by blast+
  then have s: "strip v = v" using assms(1) by (simp add: strip_id digit_not_space)
  obtain c r where v: "v = c # r" using assms(1) by (cases v) auto
  have c: "c \<noteq> CHR ''-''" "c \<noteq> CHR ''+''" using h(1) v digit_not_special by auto
  have "\<not> has_base_prefix base v"
  proof (cases r)
    case Nil
    then show ?thesis by (simp add: has_base_prefix_def v)
  next
    case (Cons x r')
    then have "digit_val x < base" using assms(2) v by simp
    then have "x \<noteq> CHR ''b''" "x \<noteq> CHR ''B''" "x \<noteq> CHR ''x''" "x \<noteq> CHR ''X''"
      using assms(3) by (auto simp: digit_val_def)
    then show ?thesis by (simp add: has_base_prefix_def v Cons)
  qed
  moreover have "strip (c # r) = c # r" using s v by simp
  ultimately show ?thesis using assms(2) c unfolding v
    by (simp add: py_int_def Let_def)
qed

lemma py_int_py_str: "0 \<le> n \<Longrightarrow> py_int 10 (py_str n) = Inr n"
  by (simp add: py_str_def py_int_digits digits_nonempty digits_all digits_value_digits)

lemma drop_py_bin: "0 \<le> n \<Longrightarrow> drop 2 (py_bin n) = digits 2 n"
  by (simp add: py_bin_def)

subsection \<open>Splitting and joining\<close>


lemma split_on_no_sep: "sep \<notin> set p \<Longrightarrow> split_on sep p = [p]"
  by (induction p) (auto split: list.splits)

lemma split_on_append:
  "sep \<notin> set p \<Longrightarrow> split_on sep (p @ sep # rest) = p # split_on sep rest"
  by (induction p) (auto split: list.splits)

lemma split_on_join:
  "ps \<noteq> [] \<Longrightarrow> (\<And>p. p \<in> set ps \<Longrightarrow> sep \<notin> set p) \<Longrightarrow> split_on sep (join [sep] ps) = ps"
proof (induction "[sep]" ps rule: join.induct)
  case 1
  then show ?case by simp
next
  case (2 p)
  then show ?case by (simp add: split_on_no_sep)
next
  case (3 p q ps)
  then show ?case by (simp add: split_on_append)
qed


lemma split_on_parts_no_sep: "p \<in> set (split_on sep s) \<Longrightarrow> sep \<notin> set p"
  by (induction s arbitrary: p) (auto split: list.splits if_splits)

subsection \<open>Binary digit strings\<close>

lemma is_bits_append: "is_bits (xs @ ys) \<longleftrightarrow> is_bits xs \<and> is_bits ys"
  by (simp add: is_bits_def)

lemma is_bits_take: "is_bits bs \<Longrightarrow> is_bits (take n bs)"
  by (auto simp: is_bits_def list_all_iff dest: in_set_takeD)

lemma is_bits_drop: "is_bits bs \<Longrightarrow> is_bits (drop n bs)"
  by (auto simp: is_bits_def list_all_iff dest: in_set_dropD)

lemma is_bits_replicate: "is_bits (replicate n (CHR ''0''))" "is_bits (replicate n (CHR ''1''))"
  by (simp_all add: is_bits_def list_all_iff digit_val_def)

lemma is_bits_digits: "0 \<le> n \<Longrightarrow> is_bits (digits 2 n)"
  by (simp add: is_bits_def digits_all)

lemma bits_value_bounds: "is_bits bs \<Longrightarrow> 0 \<le> digits_value 2 bs \<and> digits_value 2 bs < 2 ^ length bs"
proof (induction bs rule: rev_induct)
  case Nil
  then show ?case by (simp add: digits_value_Nil)
next
  case (snoc c bs)
  then have "digit_val c < 2" "0 \<le> digit_val c" by (simp_all add: is_bits_def digit_val_nonneg)
  moreover from snoc have "0 \<le> digits_value 2 bs" "digits_value 2 bs < 2 ^ length bs"
    by (simp_all add: is_bits_def)
  ultimately show ?case by (simp add: digits_value_snoc)
qed

lemma py_int_bits: "bs \<noteq> [] \<Longrightarrow> is_bits bs \<Longrightarrow> py_int 2 bs = Inr (digits_value 2 bs)"
  by (simp add: py_int_digits is_bits_def)

lemma digits_value_zeros: "digits_value b (replicate k (CHR ''0'') @ bs) = digits_value b bs"
  by (simp add: digits_value_append) (induction k; simp add: digits_value_def digit_val_def)

lemma digits_value_ones: "digits_value 2 (replicate k (CHR ''1'')) = 2 ^ k - 1"
proof (induction k)
  case 0
  then show ?case by (simp add: digits_value_Nil)
next
  case (Suc k)
  have "replicate (Suc k) (CHR ''1'') = replicate k (CHR ''1'') @ [CHR ''1'']"
    by (simp add: replicate_append_same)
  then show ?case using Suc by (simp add: digits_value_snoc digit_val_def)
qed

lemma length_pad_binary: "length (pad_binary bs len) = max (length bs) (nat len)"
  by (auto simp: pad_binary_def)

lemma value_pad_binary: "digits_value b (pad_binary bs len) = digits_value b bs"
  by (simp add: pad_binary_def digits_value_zeros)

lemma is_bits_pad_binary: "is_bits bs \<Longrightarrow> is_bits (pad_binary bs len)"
  by (simp add: pad_binary_def is_bits_append is_bits_replicate)

lemma length_digits2: "0 \<le> n \<Longrightarrow> n < 2 ^ k \<Longrightarrow> 0 < k \<Longrightarrow> length (digits 2 n) \<le> k"
proof (induction "2::int" n arbitrary: k rule: digits.induct)
  case (1 n)
  show ?case
  proof (cases "n < 2")
    case True
    then show ?thesis using 1(4) by (subst digits.simps) simp
  next
    case False
    obtain j where k: "k = Suc j" using 1(4) by (cases k) auto
    have "j \<noteq> 0" using False 1(3) k by (cases j) auto
    moreover have "n div 2 < 2 ^ j" using 1(3) k by simp
    moreover have "0 \<le> n div 2" using 1(2) by simp
    ultimately have "length (digits 2 (n div 2)) \<le> j" using 1(1) [of j] False by simp
    then show ?thesis using False k by (subst digits.simps) simp
  qed
qed

text \<open>The value of eight digits inside a digit string.\<close>

lemma bits_value_slice:
  assumes "is_bits bs" "i + 8 \<le> length bs"
  shows "digits_value 2 (take 8 (drop i bs)) = digits_value 2 bs div 2 ^ (length bs - i - 8) mod 256"
proof -
  define xs ys zs where "xs = take i bs" and "ys = take 8 (drop i bs)" and "zs = drop (i + 8) bs"
  have bs: "bs = xs @ ys @ zs"
    unfolding xs_def ys_def zs_def
    by (metis add.commute append_take_drop_id drop_drop)
  have ly: "length ys = 8" and lz: "length zs = length bs - i - 8"
    using assms(2) by (simp_all add: ys_def zs_def)
  have bys: "is_bits ys" and bzs: "is_bits zs"
    using assms(1) by (simp_all add: ys_def zs_def is_bits_take is_bits_drop)
  define A B C where "A = digits_value 2 xs" and "B = digits_value 2 ys" and "C = digits_value 2 zs"
  have B: "0 \<le> B" "B < 256" using bits_value_bounds [OF bys] ly by (simp_all add: B_def)
  have C: "0 \<le> C" "C < 2 ^ length zs" using bits_value_bounds [OF bzs] by (simp_all add: C_def)
  have "digits_value 2 bs = (A * 256 + B) * 2 ^ length zs + C"
    by (subst bs) (simp add: digits_value_append A_def B_def C_def ly power_add algebra_simps)
  then have "digits_value 2 bs div 2 ^ length zs = A * 256 + B"
    using C by simp
  then have "digits_value 2 bs div 2 ^ length zs mod 256 = B"
    using B by simp
  then show ?thesis by (simp add: lz B_def ys_def)
qed

section \<open>The codec on addresses\<close>

lemma byte_bits_facts:
  assumes "0 \<le> n" "n < 256"
  shows "length (byte_bits n) = 8" "is_bits (byte_bits n)" "digits_value 2 (byte_bits n) = n"
proof -
  have "length (digits 2 n) \<le> 8" using assms length_digits2 [of n 8] by simp
  then show "length (byte_bits n) = 8" by (simp add: byte_bits_def length_pad_binary)
  show "is_bits (byte_bits n)" using assms by (simp add: byte_bits_def is_bits_pad_binary is_bits_digits)
  show "digits_value 2 (byte_bits n) = n"
    using assms by (simp add: byte_bits_def value_pad_binary digits_value_digits)
qed

lemma ip_to_bin_loop_octets:
  "list_all (\<lambda>n. 0 \<le> n) ns \<Longrightarrow>
     ip_to_bin_loop acc (map py_str ns) = Inr (acc @ concat (map byte_bits ns))"
  by (induction ns arbitrary: acc) (simp_all add: py_int_py_str drop_py_bin byte_bits_def)

lemma py_str_no_sep: "0 \<le> n \<Longrightarrow> c = CHR ''.'' \<or> c = CHR ''/'' \<Longrightarrow> c \<notin> set (py_str n)"
  using digits_all [of 10 n] digit_not_special(5,6)
  by (auto simp: py_str_def list_all_iff)

lemma octets_range: "list_all (\<lambda>n. 0 \<le> n \<and> n < 256) (octets addr)"
  by (simp add: octets_def)

lemma dotted_quad_no_slash: "CHR ''/'' \<notin> set (dotted_quad addr)"
proof -
  have "\<And>n. 0 \<le> n \<Longrightarrow> CHR ''/'' \<notin> set (py_str n)" by (simp add: py_str_no_sep)
  then show ?thesis by (simp add: dotted_quad_def octets_def)
qed

lemma split_dotted_quad: "split_on (CHR ''.'') (dotted_quad addr) = map py_str (octets addr)"
proof -
  have "\<And>p. p \<in> set (map py_str (octets addr)) \<Longrightarrow> CHR ''.'' \<notin> set p"
    by (auto simp: octets_def py_str_no_sep)
  moreover have "map py_str (octets addr) \<noteq> []" by (simp add: octets_def)
  ultimately show ?thesis
    unfolding dotted_quad_def using split_on_join [of "map py_str (octets addr)" "CHR ''.''"] by blast
qed

lemma octets_value:
  fixes addr :: int
  assumes "0 \<le> addr" "addr < 2 ^ 32"
  shows "((addr div 2 ^ 24 mod 256 * 256 + addr div 2 ^ 16 mod 256) * 256 + addr div 2 ^ 8 mod 256) * 256
           + addr mod 256 = addr"
proof -
  define a1 a2 a3 where "a1 = addr div 256" and "a2 = a1 div 256" and "a3 = a2 div 256"
  have d: "addr div 2 ^ 8 = a1" "addr div 2 ^ 16 = a2" "addr div 2 ^ 24 = a3"
    by (simp_all add: a1_def a2_def a3_def zdiv_zmult2_eq)
  have "a3 < 256" "0 \<le> a3" using assms by (simp_all add: a1_def a2_def a3_def zdiv_zmult2_eq)
  then have a3: "a3 mod 256 = a3" by simp
  have "addr = a1 * 256 + addr mod 256" "a1 = a2 * 256 + a1 mod 256" "a2 = a3 * 256 + a2 mod 256"
    by (simp_all add: a1_def a2_def a3_def)
  then show ?thesis unfolding d a3 by simp
qed

lemma ip_to_bin_dotted_quad: "ip_to_bin (dotted_quad addr) = Inr (concat (map byte_bits (octets addr)))"
proof -
  have "list_all (\<lambda>n. 0 \<le> n) (octets addr)" by (simp add: octets_def)
  then show ?thesis
    by (simp add: ip_to_bin_def split_dotted_quad ip_to_bin_loop_octets)
qed

lemma value_four_bytes:
  assumes "0 \<le> a \<and> a < 256" "0 \<le> b \<and> b < 256" "0 \<le> c \<and> c < 256" "0 \<le> d \<and> d < 256"
  shows "digits_value 2 (byte_bits a @ byte_bits b @ byte_bits c @ byte_bits d)
           = ((a * 256 + b) * 256 + c) * 256 + d"
proof -
  have 1: "digits_value 2 (byte_bits c @ byte_bits d) = c * 256 + d"
    using assms by (simp only: digits_value_append byte_bits_facts) simp
  have 2: "digits_value 2 (byte_bits b @ byte_bits c @ byte_bits d) = b * 65536 + (c * 256 + d)"
    using assms by (simp only: digits_value_append [of 2 "byte_bits b"] 1 length_append byte_bits_facts) simp
  have 3: "digits_value 2 (byte_bits a @ byte_bits b @ byte_bits c @ byte_bits d)
             = a * 16777216 + (b * 65536 + (c * 256 + d))"
    using assms by (simp only: digits_value_append [of 2 "byte_bits a"] 2 length_append byte_bits_facts) simp
  show ?thesis unfolding 3 by simp
qed

lemma ip_to_int_dotted_quad:
  assumes "0 \<le> addr" "addr < 2 ^ 32"
  shows "ip_to_int (dotted_quad addr) = Inr addr"
proof -
  define bs where "bs = concat (map byte_bits (octets addr))"
  define a b c d where "a = addr div 2 ^ 24 mod 256" and "b = addr div 2 ^ 16 mod 256"
    and "c = addr div 2 ^ 8 mod 256" and "d = addr mod 256"
  have r: "0 \<le> a \<and> a < 256" "0 \<le> b \<and> b < 256" "0 \<le> c \<and> c < 256" "0 \<le> d \<and> d < 256"
    by (simp_all add: a_def b_def c_def d_def)
  have bs: "bs = byte_bits a @ byte_bits b @ byte_bits c @ byte_bits d"
    by (simp add: bs_def octets_def a_def b_def c_def d_def)
  have "is_bits bs" unfolding bs using r by (simp add: is_bits_append byte_bits_facts(2))
  moreover have "length bs = 32" unfolding bs using r by (simp add: byte_bits_facts(1))
  then have "bs \<noteq> []" by auto
  ultimately have "py_int 2 bs = Inr (digits_value 2 bs)" by (simp add: py_int_bits)
  moreover have "digits_value 2 bs = addr"
    unfolding bs value_four_bytes [OF r] unfolding a_def b_def c_def d_def
    by (rule octets_value [OF assms])
  ultimately show ?thesis
    by (simp add: ip_to_int_def ip_to_bin_dotted_quad bs_def)
qed

lemma py_int_slice:
  assumes "is_bits bs" "i + 8 \<le> length bs"
  shows "py_int 2 (take 8 (drop i bs)) = Inr (digits_value 2 bs div 2 ^ (length bs - i - 8) mod 256)"
proof -
  have "length (take 8 (drop i bs)) = 8" using assms(2) by simp
  then have "take 8 (drop i bs) \<noteq> []" by auto
  moreover have "is_bits (take 8 (drop i bs))" using assms(1) by (simp add: is_bits_take is_bits_drop)
  ultimately show ?thesis using bits_value_slice [OF assms] by (simp add: py_int_bits)
qed

lemma bin_to_ip_bits:
  assumes "is_bits bs" "32 \<le> length bs"
  shows "bin_to_ip bs = Inr (dotted_quad (digits_value 2 bs div 2 ^ (length bs - 32)))"
proof -
  define x and L where "x = digits_value 2 bs" and "L = length bs"
  have s: "py_int 2 (take 8 (drop 0 bs)) = Inr (x div 2 ^ (L - 8) mod 256)"
    "py_int 2 (take 8 (drop 8 bs)) = Inr (x div 2 ^ (L - 16) mod 256)"
    "py_int 2 (take 8 (drop 16 bs)) = Inr (x div 2 ^ (L - 24) mod 256)"
    "py_int 2 (take 8 (drop 24 bs)) = Inr (x div 2 ^ (L - 32) mod 256)"
    using assms py_int_slice [of bs 0] py_int_slice [of bs 8] py_int_slice [of bs 16]
      py_int_slice [of bs 24]
    by (simp_all add: x_def L_def)
  have e: "L - 8 = (L - 32) + 24" "L - 16 = (L - 32) + 16" "L - 24 = (L - 32) + 8"
    using assms(2) by (simp_all add: L_def)
  have d: "x div 2 ^ (L - 8) = x div 2 ^ (L - 32) div 2 ^ 24"
    "x div 2 ^ (L - 16) = x div 2 ^ (L - 32) div 2 ^ 16"
    "x div 2 ^ (L - 24) = x div 2 ^ (L - 32) div 2 ^ 8"
    unfolding e by (simp_all only: power_add zdiv_zmult2_eq zero_le_power zero_le_numeral)
  have "bin_to_ip_loop bs [] [0, 8, 16, 24] =
      Inr (map py_str (octets (x div 2 ^ (L - 32))))"
    using s(1) by (simp add: s(2,3,4) octets_def d)
  then show ?thesis by (simp add: bin_to_ip_def dotted_quad_def x_def L_def)
qed

lemma int_to_ip_nonneg:
  assumes "0 \<le> x"
  shows "int_to_ip x =
    Inr (dotted_quad (x div 2 ^ (length (pad_binary (digits 2 x) 32) - 32)))"
proof -
  define bs where "bs = pad_binary (digits 2 x) 32"
  have "is_bits bs" using assms by (simp add: bs_def is_bits_pad_binary is_bits_digits)
  moreover have "32 \<le> length bs" by (simp add: bs_def length_pad_binary)
  moreover have "digits_value 2 bs = x" using assms by (simp add: bs_def value_pad_binary digits_value_digits)
  ultimately show ?thesis using bin_to_ip_bits [of bs] assms
    by (simp add: int_to_ip_def drop_py_bin bs_def)
qed

lemma int_to_ip_dotted_quad:
  assumes "0 \<le> x" "x < 2 ^ 32"
  shows "int_to_ip x = Inr (dotted_quad x)"
proof -
  have "length (digits 2 x) \<le> 32" using assms length_digits2 [of x 32] by simp
  then have "length (pad_binary (digits 2 x) 32) = 32" by (simp add: length_pad_binary)
  then show ?thesis using int_to_ip_nonneg [OF assms(1)] by simp
qed

subsection \<open>The mask\<close>

lemma mask_bin_value:
  "py_int 2 (replicate a (CHR ''1'') @ replicate b (CHR ''0'')) =
     (if a + b = 0 then Inl ValueError else Inr ((2 ^ a - 1) * 2 ^ b))"
proof (cases "a + b = 0")
  case True
  then show ?thesis by (simp add: py_int_def strip_def has_base_prefix_def)
next
  case False
  then have "replicate a (CHR ''1'') @ replicate b (CHR ''0'') \<noteq> []" by auto
  moreover have "is_bits (replicate a (CHR ''1'') @ replicate b (CHR ''0''))"
    by (simp add: is_bits_append is_bits_replicate)
  moreover have "digits_value 2 (replicate a (CHR ''1'') @ replicate b (CHR ''0'')) = (2 ^ a - 1) * 2 ^ b"
    using digits_value_zeros [of 2 b "[]"]
    by (simp add: digits_value_append digits_value_ones digits_value_Nil)
  ultimately show ?thesis using False by (simp add: py_int_bits)
qed

lemma prefix_mask_eq: "prefix_mask n = (2 ^ nat n - 1) * 2 ^ nat (32 - n)"
  by (simp add: prefix_mask_def push_bit_eq_mult mask_eq_exp_minus_1)

lemma prefix_mask_range: "0 \<le> n \<Longrightarrow> n \<le> 32 \<Longrightarrow> 0 \<le> prefix_mask n \<and> prefix_mask n < 2 ^ 32"
proof -
  assume n: "0 \<le> n" "n \<le> 32"
  have "prefix_mask n = take_bit 32 (prefix_mask n)"
    unfolding prefix_mask_def by (rule bit_eqI) (use n in \<open>auto simp: bit_simps\<close>)
  then show ?thesis by (metis take_bit_nonnegative take_bit_int_less_exp)
qed

lemma xor_ones: 
  fixes m :: int
  assumes "0 \<le> m" "m < 2 ^ 32"
  shows "4294967295 XOR m = NOT m AND 4294967295"
proof -
  have m: "take_bit 32 m = m" using assms by (simp add: take_bit_int_eq_self)
  have f: "(4294967295 :: int) = mask 32" by (simp add: mask_eq_exp_minus_1)
  have "mask 32 XOR take_bit 32 m = NOT (take_bit 32 m) AND mask 32"
    by (rule bit_eqI) (auto simp: bit_simps)
  then show ?thesis unfolding m f .
qed

lemma range_arith:
  fixes a m :: int
  assumes "0 \<le> a" "0 \<le> m" "m < 2 ^ 32"
  shows "(a AND m) + (4294967295 XOR m) = (a AND m) OR (NOT m AND 4294967295)"
    and "0 \<le> a AND m" and "a AND m < 2 ^ 32"
    and "0 \<le> (a AND m) OR (NOT m AND 4294967295)"
    and "(a AND m) OR (NOT m AND 4294967295) < 2 ^ 32"
proof -
  have "(a AND m) AND (NOT m AND 4294967295) = 0"
    by (rule bit_eqI) (auto simp: bit_simps)
  then show "(a AND m) + (4294967295 XOR m) = (a AND m) OR (NOT m AND 4294967295)"
    unfolding xor_ones [OF assms(2,3)] by (rule disjunctive_add_eq_or)
  show l: "0 \<le> a AND m" using assms by simp
  have "a AND m \<le> m" using assms by (simp add: AND_upper2)
  then show u: "a AND m < 2 ^ 32" using assms by linarith
  have n: "0 \<le> NOT m AND 4294967295" by simp
  have "NOT m AND 4294967295 \<le> 4294967295" by (rule AND_upper2) simp
  then have n2: "NOT m AND 4294967295 < 2 ^ 32" by simp
  show "0 \<le> (a AND m) OR (NOT m AND 4294967295)" using l n by simp
  show "(a AND m) OR (NOT m AND 4294967295) < 2 ^ 32" using l u n2 by (rule OR_upper)
qed

section \<open>The subnet calculator on valid input\<close>

lemma mask_ip_range_valid:
  assumes "0 \<le> addr" "addr < 2 ^ 32" "0 \<le> n" "n \<le> 32"
  shows "mask_ip_range (dotted_quad addr) n =
     Inr (dotted_quad (addr AND prefix_mask n),
          dotted_quad ((addr AND prefix_mask n) OR (NOT (prefix_mask n) AND 4294967295)))"
proof -
  define m where "m = prefix_mask n"
  have m: "0 \<le> m" "m < 2 ^ 32" using prefix_mask_range [OF assms(3,4)] by (simp_all add: m_def)
  have "nat n + nat (32 - n) \<noteq> 0" using assms by linarith
  then have mb: "py_int 2 (replicate (nat n) (CHR ''1'') @ replicate (nat (32 - n)) (CHR ''0'')) = Inr m"
    by (simp only: mask_bin_value m_def prefix_mask_eq if_False)
  note r = range_arith [OF assms(1) m]
  have lo: "int_to_ip (addr AND m) = Inr (dotted_quad (addr AND m))"
    using r(2,3) by (rule int_to_ip_dotted_quad)
  have hi: "int_to_ip ((addr AND m) + (4294967295 XOR m)) =
      Inr (dotted_quad ((addr AND m) OR (NOT m AND 4294967295)))"
    unfolding r(1) using r(4,5) by (rule int_to_ip_dotted_quad)
  show ?thesis
    unfolding mask_ip_range_def ip_to_int_dotted_quad [OF assms(1,2)] m_def [symmetric]
    by (simp only: mb lo hi Let_def sum.case)
qed

lemma cidr_args:
  assumes "0 \<le> n"
  shows "mask_ip_args (dotted_quad addr @ CHR ''/'' # py_str n) None = Inr (dotted_quad addr, n)"
proof -
  have "CHR ''/'' \<notin> set (py_str n)" using assms by (simp add: py_str_no_sep)
  then have "split_on (CHR ''/'') (dotted_quad addr @ CHR ''/'' # py_str n) = [dotted_quad addr, py_str n]"
    by (simp add: split_on_append dotted_quad_no_slash split_on_no_sep)
  then show ?thesis using assms by (simp add: mask_ip_args_def py_int_py_str)
qed

lemma prefix_mask_32: "0 \<le> addr \<Longrightarrow> addr < 2 ^ 32 \<Longrightarrow>
   addr AND prefix_mask 32 = addr \<and> (addr OR (NOT (prefix_mask 32) AND 4294967295)) = addr"
proof -
  assume a: "0 \<le> addr" "addr < 2 ^ 32"
  have p: "prefix_mask 32 = mask 32" by (simp add: prefix_mask_def)
  have f: "(4294967295 :: int) = mask 32" by (simp add: mask_eq_exp_minus_1)
  have "addr AND mask 32 = addr" using a by (simp add: take_bit_eq_mask [symmetric] take_bit_int_eq_self)
  moreover have "NOT (mask 32) AND mask 32 = (0::int)" by (rule bit_eqI) (simp add: bit_simps)
  ultimately show ?thesis unfolding p f by simp
qed

lemma prefix_mask_0: "prefix_mask 0 = 0"
  by (simp add: prefix_mask_def)

lemma dotted_quad_examples:
  "dotted_quad 0 = ''0.0.0.0''"
  "dotted_quad 4294967295 = ''255.255.255.255''"
  by code_simp+

text \<open>
  Claim C1. For every IPv4 address \<open>addr\<close> (a value below \<open>2 ^ 32\<close>, given as its dotted
  text) and every prefix length \<open>n\<close> from 0 to 32, \<open>mask_ip\<close> returns the texts of
  \<open>lower = addr AND mask\<close> and of \<open>upper = lower OR (NOT mask AND 0xFFFFFFFF)\<close>, where the
  mask has \<open>n\<close> leading 1-bits followed by \<open>32 - n\<close> 0-bits; the code's sum
  \<open>lower + (0xFFFFFFFF XOR mask)\<close> equals that OR. The CIDR text form gives the same result.
  At \<open>n = 32\<close> both bounds are the address, at \<open>n = 0\<close> they are 0.0.0.0 and
  255.255.255.255, and 104.39.72.0/22 gives 104.39.72.0 and 104.39.75.255.
\<close>

theorem mask_ip_range_correct:
  assumes "0 \<le> addr" "addr < 2 ^ 32" "0 \<le> n" "n \<le> 32"
  shows "mask_ip (dotted_quad addr) (Some n) =
           Inr (dotted_quad (addr AND prefix_mask n),
                dotted_quad ((addr AND prefix_mask n) OR (NOT (prefix_mask n) AND 4294967295)))
       \<and> mask_ip (dotted_quad addr @ ''/'' @ py_str n) None = mask_ip (dotted_quad addr) (Some n)
       \<and> mask_ip (dotted_quad addr) (Some 32) = Inr (dotted_quad addr, dotted_quad addr)
       \<and> mask_ip (dotted_quad addr) (Some 0) = Inr (''0.0.0.0'', ''255.255.255.255'')
       \<and> mask_ip ''104.39.72.0/22'' None = Inr (''104.39.72.0'', ''104.39.75.255'')"
proof -
  have g: "\<And>k. 0 \<le> k \<Longrightarrow> k \<le> 32 \<Longrightarrow> mask_ip (dotted_quad addr) (Some k) =
           Inr (dotted_quad (addr AND prefix_mask k),
                dotted_quad ((addr AND prefix_mask k) OR (NOT (prefix_mask k) AND 4294967295)))"
    using assms(1,2) by (simp add: mask_ip_def mask_ip_args_def mask_ip_range_valid)
  have c: "mask_ip (dotted_quad addr @ ''/'' @ py_str n) None = mask_ip (dotted_quad addr) (Some n)"
    using assms(3) by (simp add: mask_ip_def cidr_args) (simp add: mask_ip_args_def)
  have a32: "mask_ip (dotted_quad addr) (Some 32) = Inr (dotted_quad addr, dotted_quad addr)"
    using g [of 32] prefix_mask_32 [OF assms(1,2)] by simp
  have a0: "mask_ip (dotted_quad addr) (Some 0) = Inr (''0.0.0.0'', ''255.255.255.255'')"
    using g [of 0] by (simp add: prefix_mask_0 dotted_quad_examples)
  have ex: "mask_ip ''104.39.72.0/22'' None = Inr (''104.39.72.0'', ''104.39.75.255'')"
    by code_simp
  show ?thesis using g [OF assms(3,4)] c a32 a0 ex by blast
qed

theorem mask_ip_range_correct_witness:
  "mask_ip ''104.39.72.0'' (Some 22) = Inr (''104.39.72.0'', ''104.39.75.255'')
   \<and> mask_ip ''10.0.0.5/32'' None = Inr (''10.0.0.5'', ''10.0.0.5'')"
proof -
  have d: "dotted_quad 1747404800 = ''104.39.72.0''"
    "dotted_quad (1747404800 AND prefix_mask 22) = ''104.39.72.0''"
    "dotted_quad ((1747404800 AND prefix_mask 22) OR (NOT (prefix_mask 22) AND 4294967295)) = ''104.39.75.255''"
    "dotted_quad 167772165 = ''10.0.0.5''" "''10.0.0.5'' @ ''/'' @ py_str 32 = ''10.0.0.5/32''"
    by code_simp+
  have h1: "(0::int) \<le> 1747404800" "(1747404800::int) < 2 ^ 32" "(0::int) \<le> 22" "(22::int) \<le> 32"
    by simp_all
  have h2: "(0::int) \<le> 167772165" "(167772165::int) < 2 ^ 32" "(0::int) \<le> 32" "(32::int) \<le> 32"
    by simp_all
  note t1 = mask_ip_range_correct [OF h1, unfolded d]
  note t2 = mask_ip_range_correct [OF h2, unfolded d]
  have "mask_ip ''104.39.72.0'' (Some 22) = Inr (''104.39.72.0'', ''104.39.75.255'')"
    using t1 by blast
  moreover have "mask_ip ''10.0.0.5/32'' None = mask_ip ''10.0.0.5'' (Some 32)"
    "mask_ip ''10.0.0.5'' (Some 32) = Inr (''10.0.0.5'', ''10.0.0.5'')"
    using t2 by blast+
  ultimately show ?thesis by (simp only:) 
qed

section \<open>The round trip between text and integer\<close>









lemma digits_no_leading_zero: "0 < n \<Longrightarrow> hd (digits 10 n) \<noteq> CHR ''0''"
proof (induction "10::int" n rule: digits.induct)
  case (1 n)
  show ?case
  proof (cases "n < 10")
    case True
    have "digit_val (digit_char n) = n" using True 1(2) by (simp add: digit_val_digit_char)
    moreover have "digit_val (CHR ''0'') = 0" by (simp add: digit_val_def)
    ultimately have "digit_char n \<noteq> CHR ''0''" using 1(2) by auto
    then show ?thesis using True by (subst digits.simps) simp
  next
    case False
    then have "0 < n div 10" by simp
    then have "hd (digits 10 (n div 10)) \<noteq> CHR ''0''" using 1(1) False by simp
    then show ?thesis using False digits_nonempty [of 10 "n div 10"]
      by (subst digits.simps) simp
  qed
qed

lemma canonical_octet_py_str_of: "0 \<le> v \<Longrightarrow> v < 256 \<Longrightarrow> canonical_octet (py_str v)"
proof -
  assume v: "0 \<le> v" "v < 256"
  have s: "py_str v = digits 10 v" using v by (simp add: py_str_def)
  have "hd (digits 10 v) = CHR ''0'' \<longrightarrow> length (digits 10 v) = 1"
  proof (cases "v = 0")
    case True
    then show ?thesis by (subst (2) digits.simps) simp
  next
    case False
    then show ?thesis using v digits_no_leading_zero [of v] by simp
  qed
  then show ?thesis
    using v by (simp add: canonical_octet_def s digits_nonempty digits_all digits_value_digits)
qed

text \<open>The text of every address is a valid dotted-decimal text.\<close>

lemma canonical_ipv4_of_address: "canonical_ipv4 (dotted_quad addr)"
  by (simp add: canonical_ipv4_def split_dotted_quad octets_def canonical_octet_py_str_of)

section \<open>Input that the codec and the calculator do not check\<close>

lemma py_int_error: "py_int base p = Inl e \<Longrightarrow> e = ValueError"
  by (auto simp: py_int_def Let_def split: if_splits)

lemma ip_to_bin_loop_result:
  "ip_to_bin_loop acc ps =
     (if list_ex (\<lambda>p. py_int 10 p = Inl ValueError) ps then Inl ValueError
      else Inr (acc @ concat (map (\<lambda>p. pad_binary (drop 2 (py_bin (projr (py_int 10 p)))) 8) ps)))"
proof (induction ps arbitrary: acc)
  case Nil
  then show ?case by simp
next
  case (Cons p ps)
  show ?case
  proof (cases "py_int 10 p")
    case (Inl e)
    then have "py_int 10 p = Inl ValueError" using py_int_error by blast
    then show ?thesis by simp
  next
    case (Inr v)
    then show ?thesis by (simp add: Cons)
  qed
qed

text \<open>
  Claim C5, as amended. \<open>ip_to_bin\<close> splits at the dots and raises ValueError exactly when
  some piece is not a base-10 integer literal. It asks neither for four pieces nor for
  values from 0 to 255: otherwise it returns, for each piece in order, the binary digits
  of its value (as \<open>bin\<close> prints them, without the first two characters) padded with zeros
  to at least eight characters.
\<close>

theorem ip_to_bin_result:
  "ip_to_bin s =
     (if list_ex (\<lambda>p. py_int 10 p = Inl ValueError) (split_on (CHR ''.'') s) then Inl ValueError
      else Inr (concat (map (\<lambda>p. pad_binary (drop 2 (py_bin (projr (py_int 10 p)))) 8)
                          (split_on (CHR ''.'') s))))"
  unfolding ip_to_bin_def by (simp only: ip_to_bin_loop_result append_Nil)

theorem ip_to_bin_unchecked_counterexample:
  "ip_to_bin ''1.2.3'' = Inr ''000000010000001000000011''
   \<and> ip_to_bin ''300.1.1.1'' = Inr ''100101100000000010000000100000001''
   \<and> ip_to_int ''300.1.1.1'' = Inr 5033230593"
  by code_simp

lemma length_digits2_ge:
  assumes "2 ^ k \<le> x"
  shows "k < length (digits 2 x)"
proof (rule ccontr)
  assume "\<not> k < length (digits 2 x)"
  then have "length (digits 2 x) \<le> k" by simp
  then have "(2::int) ^ length (digits 2 x) \<le> 2 ^ k" by (simp add: power_increasing)
  moreover have x: "0 \<le> x" using assms by (smt (verit) zero_le_power)
  then have "x < 2 ^ length (digits 2 x)"
    using bits_value_bounds [OF is_bits_digits [OF x]] by (simp add: digits_value_digits)
  ultimately show False using assms by linarith
qed

lemma xor_masks: "32 \<le> N \<Longrightarrow> (4294967295 :: int) XOR (2 ^ N - 1) = 2 ^ N - 2 ^ 32"
proof -
  assume N: "32 \<le> N"
  have f: "(4294967295 :: int) = mask 32" "(2 :: int) ^ N - 1 = mask N"
    by (simp_all add: mask_eq_exp_minus_1)
  have "(mask 32 :: int) XOR mask N = push_bit 32 (mask (N - 32))"
    by (rule bit_eqI) (use N in \<open>auto simp: bit_simps\<close>)
  also have "\<dots> = 2 ^ 32 * (2 ^ (N - 32) - 1)"
    by (simp add: push_bit_eq_mult mask_eq_exp_minus_1)
  also have "\<dots> = 2 ^ (32 + (N - 32)) - 2 ^ 32"
    by (simp add: power_add right_diff_distrib)
  also have "32 + (N - 32) = N" using N by simp
  finally show ?thesis unfolding f .
qed

lemma mask_ip_range_negative:
  assumes "0 \<le> addr" "addr < 2 ^ 32" "n < 0"
  shows "mask_ip_range (dotted_quad addr) n = Inr (''0.0.0.0'', ''255.255.255.255'')"
proof -
  have n: "nat n = 0" "nat n + nat (32 - n) \<noteq> 0" using assms(3) by simp_all
  have mb: "py_int 2 (replicate (nat n) (CHR ''1'') @ replicate (nat (32 - n)) (CHR ''0'')) = Inr 0"
    using n(2) by (simp only: mask_bin_value if_False) (simp add: n(1))
  have i: "int_to_ip 0 = Inr ''0.0.0.0''" "int_to_ip 4294967295 = Inr ''255.255.255.255''"
    by (simp_all add: int_to_ip_dotted_quad dotted_quad_examples)
  show ?thesis
    unfolding mask_ip_range_def ip_to_int_dotted_quad [OF assms(1,2)]
    by (simp only: mb sum.case Let_def) (simp add: i)
qed

lemma mask_ip_range_large:
  assumes "0 \<le> addr" "addr < 2 ^ 32" "32 < n"
  shows "mask_ip_range (dotted_quad addr) n =
     Inr (dotted_quad addr, dotted_quad ((addr + 2 ^ nat n - 2 ^ 32) div 2 ^ (nat n - 32)))"
proof -
  define N where "N = nat n"
  have N: "32 < N" "nat (32 - n) = 0" using assms(3) by (simp_all add: N_def)
  obtain j where j: "N = Suc j" "32 \<le> j" using N(1) by (cases N) auto
  have mb: "py_int 2 (replicate N (CHR ''1'') @ replicate (nat (32 - n)) (CHR ''0'')) = Inr (2 ^ N - 1)"
    using mask_bin_value [of N 0] N by simp
  have "addr AND (2 ^ N - 1) = take_bit N addr"
    by (simp add: take_bit_eq_mask mask_eq_exp_minus_1)
  moreover have "addr < 2 ^ N"
    using assms(2) N(1) power_strict_increasing [of 32 N "2::int"] by linarith
  ultimately have lo: "addr AND (2 ^ N - 1) = addr"
    using assms(1) by (simp add: take_bit_int_eq_self)
  have sub: "(4294967295 :: int) XOR (2 ^ N - 1) = 2 ^ N - 2 ^ 32"
    using N(1) by (simp add: xor_masks)
  define u where "u = addr + 2 ^ N - 2 ^ 32"
  have "(2::int) ^ 32 \<le> 2 ^ j" using j(2) by (intro power_increasing) simp_all
  then have ul: "2 ^ j \<le> u" using assms(1) by (simp add: u_def j(1))
  have uu: "u < 2 ^ N" using assms(2) by (simp add: u_def)
  have u0: "0 \<le> u" using ul by (smt (verit) zero_le_power)
  have "length (digits 2 u) \<le> N" using length_digits2 [OF u0 uu] N(1) by simp
  moreover have "j < length (digits 2 u)" using ul by (rule length_digits2_ge)
  ultimately have "length (digits 2 u) = N" using j(1) by simp
  then have "length (pad_binary (digits 2 u) 32) = N" using N(1) by (simp add: length_pad_binary)
  then have hi: "int_to_ip u = Inr (dotted_quad (u div 2 ^ (N - 32)))"
    using int_to_ip_nonneg [OF u0] by simp
  have l: "int_to_ip addr = Inr (dotted_quad addr)" using assms(1,2) by (rule int_to_ip_dotted_quad)
  have s: "addr + (2 ^ N - 2 ^ 32) = u" by (simp add: u_def)
  show ?thesis
    unfolding mask_ip_range_def ip_to_int_dotted_quad [OF assms(1,2)] N_def [symmetric]
    by (simp only: mb sum.case Let_def lo sub s [unfolded u_def] l hi [unfolded u_def])
qed

text \<open>
  Claim C4, as amended. \<open>mask_ip\<close> makes no check of the prefix length and does not fail
  on one outside 0 to 32. For an address below \<open>2 ^ 32\<close>, a negative prefix length gives
  the same range as 0, that is 0.0.0.0 to 255.255.255.255; a prefix length \<open>n\<close> above 32
  gives the address itself as lower bound and, as upper bound, the text of the leading 32
  of the \<open>n\<close> binary digits of \<open>addr + 2 ^ n - 2 ^ 32\<close>.
\<close>

theorem mask_ip_prefix_unchecked:
  assumes "0 \<le> addr" "addr < 2 ^ 32"
  shows "(n < 0 \<longrightarrow> mask_ip (dotted_quad addr) (Some n) = Inr (''0.0.0.0'', ''255.255.255.255''))
       \<and> (32 < n \<longrightarrow> mask_ip (dotted_quad addr) (Some n) =
             Inr (dotted_quad addr, dotted_quad ((addr + 2 ^ nat n - 2 ^ 32) div 2 ^ (nat n - 32))))"
  using assms by (simp add: mask_ip_def mask_ip_args_def mask_ip_range_negative mask_ip_range_large)

theorem mask_ip_prefix_unchecked_witness:
  "mask_ip ''1.2.3.4'' (Some (- 5)) = Inr (''0.0.0.0'', ''255.255.255.255'')
   \<and> mask_ip ''1.2.3.4'' (Some 40) = Inr (''1.2.3.4'', ''255.1.2.3'')"
proof -
  have d: "dotted_quad 16909060 = ''1.2.3.4''"
    "dotted_quad ((16909060 + 2 ^ nat 40 - 2 ^ 32) div 2 ^ (nat 40 - 32)) = ''255.1.2.3''"
    by code_simp+
  have h: "(0::int) \<le> 16909060" "(16909060::int) < 2 ^ 32" by simp_all
  have "mask_ip ''1.2.3.4'' (Some (- 5)) = Inr (''0.0.0.0'', ''255.255.255.255'')"
    using mask_ip_prefix_unchecked [OF h, of "- 5", unfolded d] by simp
  moreover have "mask_ip ''1.2.3.4'' (Some 40) = Inr (''1.2.3.4'', ''255.1.2.3'')"
    using mask_ip_prefix_unchecked [OF h, of 40, unfolded d] by simp
  ultimately show ?thesis by (simp only:)
qed

theorem mask_ip_prefix_counterexample:
  "mask_ip ''1.2.3.4'' (Some (- 1)) = Inr (''0.0.0.0'', ''255.255.255.255'')
   \<and> mask_ip ''1.2.3.4'' (Some 33) = Inr (''1.2.3.4'', ''128.129.1.130'')"
  by code_simp

section \<open>What the three patterns of the wifi parser match\<close>

lemma splitlines_from_no_terminator:
  "LF \<notin> set cur \<Longrightarrow> CR \<notin> set cur \<Longrightarrow> l \<in> set (splitlines_from cur s) \<Longrightarrow> LF \<notin> set l \<and> CR \<notin> set l"
  by (induction cur s rule: splitlines_from.induct) (auto split: if_splits)

text \<open>The lines that the patterns are applied to hold no line terminator.\<close>

lemma splitlines_no_terminator:
  "l \<in> set (splitlines s) \<Longrightarrow> LF \<notin> set l \<and> CR \<notin> set l"
  unfolding splitlines_def by (rule splitlines_from_no_terminator) simp_all

lemma rstrip_ws_unique:
  assumes "list_all isspace ws" "y \<noteq> []" "\<not> isspace (last y)"
  shows "rev (dropWhile isspace (rev (y @ ws))) = y"
proof -
  have "dropWhile isspace (rev ws @ rev y) = dropWhile isspace (rev y)"
    using assms(1) by (intro dropWhile_append2) (simp add: list_all_iff)
  also have "\<dots> = rev y"
    using assms(2,3) by (simp add: dropWhile_eq_self_iff hd_rev)
  finally show ?thesis by simp
qed

lemma rstrip_ws_split:
  "\<exists>ws. l = rev (dropWhile isspace (rev l)) @ ws \<and> list_all isspace ws"
proof -
  have "rev l = takeWhile isspace (rev l) @ dropWhile isspace (rev l)" by simp
  then have "l = rev (dropWhile isspace (rev l)) @ rev (takeWhile isspace (rev l))"
    by (metis rev_append rev_rev_ident)
  moreover have "list_all isspace (rev (takeWhile isspace (rev l)))"
    by (auto simp: list_all_iff dest: set_takeWhileD)
  ultimately show ?thesis by blast
qed

text \<open>\<^verbatim>\<open>^(\S+)\s+\S\<close>: the group is a non-empty run of non-whitespace at the start, followed
  by at least one whitespace character and then a non-whitespace character.\<close>

lemma interface_match_iff:
  "interface_match l = Some g \<longleftrightarrow>
     (\<exists>ws rest. l = g @ ws @ rest \<and> g \<noteq> [] \<and> list_all (\<lambda>c. \<not> isspace c) g
        \<and> ws \<noteq> [] \<and> list_all isspace ws \<and> rest \<noteq> [] \<and> \<not> isspace (hd rest))"
proof
  assume a: "interface_match l = Some g"
  define r0 where "r0 = dropWhile (\<lambda>c. \<not> isspace c) l"
  have g: "g = takeWhile (\<lambda>c. \<not> isspace c) l" "g \<noteq> []" "r0 \<noteq> []" "dropWhile isspace r0 \<noteq> []"
    using a by (auto simp: interface_match_def Let_def r0_def split: if_splits)
  have l: "l = g @ takeWhile isspace r0 @ dropWhile isspace r0"
    by (simp add: g(1) r0_def)
  have "isspace (hd r0)" using g(3) hd_dropWhile [of "\<lambda>c. \<not> isspace c" l] by (simp add: r0_def)
  then have "takeWhile isspace r0 \<noteq> []" using g(3) by (cases r0) auto
  moreover have "\<not> isspace (hd (dropWhile isspace r0))" using g(4) by (rule hd_dropWhile)
  moreover have "list_all (\<lambda>c. \<not> isspace c) g" "list_all isspace (takeWhile isspace r0)"
    by (auto simp: g(1) list_all_iff dest: set_takeWhileD)
  ultimately show "\<exists>ws rest. l = g @ ws @ rest \<and> g \<noteq> [] \<and> list_all (\<lambda>c. \<not> isspace c) g
        \<and> ws \<noteq> [] \<and> list_all isspace ws \<and> rest \<noteq> [] \<and> \<not> isspace (hd rest)"
    using l g(2,4) by blast
next
  assume "\<exists>ws rest. l = g @ ws @ rest \<and> g \<noteq> [] \<and> list_all (\<lambda>c. \<not> isspace c) g
        \<and> ws \<noteq> [] \<and> list_all isspace ws \<and> rest \<noteq> [] \<and> \<not> isspace (hd rest)"
  then obtain ws rest where l: "l = g @ ws @ rest" and g: "g \<noteq> []" "list_all (\<lambda>c. \<not> isspace c) g"
    and ws: "ws \<noteq> []" "list_all isspace ws" and rest: "rest \<noteq> []" "\<not> isspace (hd rest)"
    by blast
  have hws: "isspace (hd ws)" using ws by (cases ws) auto
  have t: "takeWhile (\<lambda>c. \<not> isspace c) l = g"
    unfolding l using g(2) hws ws(1)
    by (subst takeWhile_append2) (auto simp: list_all_iff takeWhile_eq_Nil_iff)
  have d: "dropWhile (\<lambda>c. \<not> isspace c) l = ws @ rest"
    unfolding l using g(2) hws ws(1)
    by (subst dropWhile_append2) (auto simp: list_all_iff dropWhile_eq_self_iff)
  have dr: "dropWhile isspace (ws @ rest) = rest"
    using ws(2) rest by (subst dropWhile_append2) (auto simp: list_all_iff dropWhile_eq_self_iff)
  show "interface_match l = Some g"
    unfolding interface_match_def Let_def t d dr using g(1) ws(1) rest(1) by simp
qed

lemma to_lower_space: "to_lower c = CHR '' '' \<Longrightarrow> c = CHR '' ''"
  by (auto simp: to_lower_def Let_def char_eq_int simp del: of_char_eq_iff split: if_splits)

lemma mac_char_not_space: "is_mac_char c \<Longrightarrow> \<not> isspace c"
  by (auto simp: is_mac_char_def digit_val_def isspace_code Let_def split: if_splits)

text \<open>\<^verbatim>\<open>^.*access point: ([a-fA-F0-9:]+)\s*$\<close> with \<^verbatim>\<open>re.I\<close>: the line is some text, the label in
  any letter case, the group (a non-empty run of hexadecimal digits and colons) and
  whitespace up to the end.\<close>

lemma mac_match_iff:
  "mac_match l = Some g \<longleftrightarrow>
     (\<exists>before label ws. l = before @ label @ g @ ws \<and> map to_lower label = ''access point: ''
        \<and> g \<noteq> [] \<and> list_all is_mac_char g \<and> list_all isspace ws)"
proof
  assume a: "mac_match l = Some g"
  define s where "s = rev (dropWhile isspace (rev l))"
  define b0 where "b0 = rev (dropWhile is_mac_char (rev s))"
  have g: "g = rev (takeWhile is_mac_char (rev s))" "g \<noteq> []"
    and lab: "take 14 (rev (map to_lower b0)) = rev ''access point: ''"
    using a by (auto simp: mac_match_def Let_def s_def b0_def split: if_splits)
  obtain ws where ws: "l = s @ ws" "list_all isspace ws"
    using rstrip_ws_split [of l] by (auto simp: s_def)
  have "rev s = takeWhile is_mac_char (rev s) @ dropWhile is_mac_char (rev s)" by simp
  then have s: "s = b0 @ g" unfolding g(1) b0_def by (metis rev_append rev_rev_ident)
  have gm: "list_all is_mac_char g" by (auto simp: g(1) list_all_iff dest: set_takeWhileD)
  define label where "label = drop (length b0 - 14) b0"
  define before where "before = take (length b0 - 14) b0"
  have b: "b0 = before @ label" by (simp add: before_def label_def)
  have "length (rev ''access point: '') = 14" by simp
  then have "14 \<le> length b0" using lab by (metis length_map length_rev length_take min.cobounded1)
  then have ll: "length label = 14" by (simp add: label_def)
  have "rev (map to_lower b0) = rev (map to_lower label) @ rev (map to_lower before)"
    by (simp add: b)
  then have "take 14 (rev (map to_lower b0)) = rev (map to_lower label)" using ll by simp
  then have ml: "map to_lower label = ''access point: ''" using lab by (metis rev_rev_ident)
  have ld: "l = before @ label @ g @ ws" using ws(1) s b by simp
  show "\<exists>before label ws. l = before @ label @ g @ ws \<and> map to_lower label = ''access point: ''
        \<and> g \<noteq> [] \<and> list_all is_mac_char g \<and> list_all isspace ws"
    by (intro exI [of _ before] exI [of _ label] exI [of _ ws] conjI ld ml g(2) gm ws(2))
next
  assume "\<exists>before label ws. l = before @ label @ g @ ws \<and> map to_lower label = ''access point: ''
        \<and> g \<noteq> [] \<and> list_all is_mac_char g \<and> list_all isspace ws"
  then obtain before where "\<exists>label ws. l = before @ label @ g @ ws
      \<and> map to_lower label = ''access point: '' \<and> g \<noteq> [] \<and> list_all is_mac_char g \<and> list_all isspace ws" ..
  then obtain label where "\<exists>ws. l = before @ label @ g @ ws
      \<and> map to_lower label = ''access point: '' \<and> g \<noteq> [] \<and> list_all is_mac_char g \<and> list_all isspace ws" ..
  then obtain ws where h: "l = before @ label @ g @ ws
      \<and> map to_lower label = ''access point: '' \<and> g \<noteq> [] \<and> list_all is_mac_char g \<and> list_all isspace ws" ..
  from h have l: "l = before @ label @ g @ ws" by (rule conjunct1)
  from h have lab: "map to_lower label = ''access point: ''" by (rule conjunct2 [THEN conjunct1])
  from h have g: "g \<noteq> []" "list_all is_mac_char g"
    by (rule conjunct2 [THEN conjunct2, THEN conjunct1],
        rule conjunct2 [THEN conjunct2, THEN conjunct2, THEN conjunct1])
  from h have ws: "list_all isspace ws"
    by (rule conjunct2 [THEN conjunct2, THEN conjunct2, THEN conjunct2])
  have "last g \<in> set g" using g(1) by simp
  then have "\<not> isspace (last g)" using g(2) by (auto simp: list_all_iff mac_char_not_space)
  moreover have "before @ label @ g \<noteq> []" "last (before @ label @ g) = last g" using g(1) by simp_all
  ultimately have s: "rev (dropWhile isspace (rev l)) = before @ label @ g"
    using rstrip_ws_unique [OF ws, of "before @ label @ g"] unfolding l by simp
  have "length (map to_lower label) = length ''access point: ''" by (simp only: lab)
  then have ll: "length label = 14" by simp
  then have ln: "label \<noteq> []" by auto
  have "to_lower (last label) = last (map to_lower label)" using ln by (simp add: last_map)
  also have "\<dots> = CHR '' ''" unfolding lab by simp
  finally have "last label = CHR '' ''" by (rule to_lower_space)
  then have nl: "\<not> is_mac_char (last label)" by (simp add: is_mac_char_def digit_val_def)
  have r: "rev (before @ label @ g) = rev g @ (rev label @ rev before)" by simp
  have hl: "hd (rev label @ rev before) = last label" using ln by (simp add: hd_rev)
  have ne: "rev label @ rev before \<noteq> []" using ln by simp
  have t: "takeWhile is_mac_char (rev (before @ label @ g)) = rev g"
    unfolding r using g(2) nl hl ne
    by (subst takeWhile_append2) (auto simp: list_all_iff takeWhile_eq_Nil_iff)
  have d: "dropWhile is_mac_char (rev (before @ label @ g)) = rev label @ rev before"
    unfolding r using g(2) nl hl ne
    by (subst dropWhile_append2) (auto simp: list_all_iff dropWhile_eq_self_iff)
  have k0: "take 14 (rev (map to_lower (before @ label))) = rev (map to_lower label)"
    using ll by simp
  have k: "take 14 (rev (map to_lower (rev (rev label @ rev before)))) = rev ''access point: ''"
    unfolding rev_append rev_rev_ident k0 lab ..
  have "mac_match l =
      (if rev (rev g) \<noteq> [] \<and>
          take 14 (rev (map to_lower (rev (rev label @ rev before)))) = rev ''access point: ''
       then Some (rev (rev g)) else None)"
    unfolding mac_match_def Let_def s t d ..
  also have "\<dots> = Some g" unfolding k using g(1) by (simp only: rev_rev_ident simp_thms if_True)
  finally show "mac_match l = Some g" .
qed

lemma after_last_sound: "after_last pat s = Some r \<Longrightarrow> \<exists>b. s = b @ pat @ r"
proof (induction s arbitrary: r)
  case Nil
  then show ?case by (simp split: if_splits)
next
  case (Cons c cs)
  show ?case
  proof (cases "after_last pat cs")
    case None
    then have "take (length pat) (c # cs) = pat" "r = drop (length pat) (c # cs)"
      using Cons.prems by (simp_all split: if_splits)
    then have "c # cs = [] @ pat @ r" by (metis append_Nil append_take_drop_id)
    then show ?thesis by blast
  next
    case (Some r')
    then have "r = r'" using Cons.prems by simp
    then obtain b where "cs = b @ pat @ r" using Cons.IH Some by blast
    then have "c # cs = (c # b) @ pat @ r" by simp
    then show ?thesis by blast
  qed
qed

lemma after_last_complete: "after_last pat (b @ pat @ r) \<noteq> None"
proof (induction b)
  case Nil
  show ?case
  proof (cases "pat @ r")
    case Nil
    then show ?thesis by simp
  next
    case (Cons c cs)
    have "take (length pat) (pat @ r) = pat" by simp
    then show ?thesis unfolding append_Nil Cons by (simp split: option.splits)
  qed
next
  case (Cons x b)
  then show ?case by (auto split: option.splits)
qed

lemma after_last_shortest:
  "after_last pat s = Some r \<Longrightarrow> s = b' @ pat @ r' \<Longrightarrow> length r \<le> length r'"
proof (induction s arbitrary: b')
  case Nil
  then show ?case by (simp split: if_splits)
next
  case (Cons c cs)
  show ?case
  proof (cases "after_last pat cs")
    case None
    have "b' = []"
    proof (rule ccontr)
      assume "b' \<noteq> []"
      then obtain b'' where "b' = c # b''" "cs = b'' @ pat @ r'"
        using Cons.prems(2) by (cases b') auto
      then show False using None after_last_complete [of pat b'' r'] by simp
    qed
    then have "r' = drop (length pat) (c # cs)" using Cons.prems(2) by simp
    moreover have "r = drop (length pat) (c # cs)"
      using Cons.prems(1) None by (simp split: if_splits)
    ultimately show ?thesis by simp
  next
    case (Some r0)
    then have r: "r = r0" using Cons.prems(1) by simp
    show ?thesis
    proof (cases b')
      case Nil
      obtain b0 where "cs = b0 @ pat @ r" using after_last_sound Some r by blast
      then have "length r \<le> length cs - length pat" by simp
      moreover have "length r' = length (c # cs) - length pat" using Cons.prems(2) Nil by simp
      ultimately show ?thesis by simp
    next
      case (Cons x b'')
      then have "cs = b'' @ pat @ r'" using Cons.prems(2) by simp
      then show ?thesis using Cons.IH [of b''] Some r by simp
    qed
  qed
qed

text \<open>\<^verbatim>\<open>^.*SSID:"(.*)"\s*$\<close>: the line is some text, \<^verbatim>\<open>SSID:"\<close>, the group, a closing quote and
  whitespace up to the end; of all such readings of the line the greedy prefix leaves the
  shortest group.\<close>

lemma ssid_match_iff:
  "ssid_match l = Some g \<longleftrightarrow>
     (\<exists>before ws. l = before @ (''SSID:'' @ [dquote]) @ g @ [dquote] @ ws \<and> list_all isspace ws)
   \<and> (\<forall>before' g' ws'. l = before' @ (''SSID:'' @ [dquote]) @ g' @ [dquote] @ ws' \<and> list_all isspace ws'
          \<longrightarrow> length g \<le> length g')"
proof -
  define pat where "pat = ''SSID:'' @ [dquote]"
  define s where "s = rev (dropWhile isspace (rev l))"
  have nq: "\<not> isspace dquote" by (simp add: dquote_def isspace_def)
  obtain ws0 where ws0: "l = s @ ws0" "list_all isspace ws0"
    using rstrip_ws_split [of l] by (auto simp: s_def)
  have dec: "s = before @ pat @ g' @ [dquote]"
    if "l = before @ pat @ g' @ [dquote] @ ws'" "list_all isspace ws'" for before g' ws'
  proof -
    have "rev (dropWhile isspace (rev ((before @ pat @ g' @ [dquote]) @ ws'))) = before @ pat @ g' @ [dquote]"
      using that(2) nq by (intro rstrip_ws_unique) simp_all
    then show ?thesis using that(1) by (simp add: s_def)
  qed
  have m: "ssid_match l = (if s \<noteq> [] \<and> last s = dquote then after_last pat (butlast s) else None)"
    by (simp add: ssid_match_def Let_def s_def pat_def)
  show ?thesis
    unfolding pat_def [symmetric]
  proof (intro iffI conjI allI impI)
    assume a: "ssid_match l = Some g"
    then have q: "s \<noteq> []" "last s = dquote" and al: "after_last pat (butlast s) = Some g"
      using m by (simp_all split: if_splits)
    obtain b where "butlast s = b @ pat @ g" using after_last_sound [OF al] by blast
    then have "s = b @ pat @ g @ [dquote]" using q by (metis append_assoc append_butlast_last_id)
    then have "l = b @ pat @ g @ [dquote] @ ws0" using ws0(1) by simp
    then show "\<exists>before ws. l = before @ pat @ g @ [dquote] @ ws \<and> list_all isspace ws"
      using ws0(2) by blast
    fix before' g' ws'
    assume "l = before' @ pat @ g' @ [dquote] @ ws' \<and> list_all isspace ws'"
    then have "s = before' @ pat @ g' @ [dquote]" using dec by blast
    then have "butlast s = before' @ pat @ g'" by (simp add: butlast_append)
    then show "length g \<le> length g'" using after_last_shortest [OF al] by blast
  next
    assume "(\<exists>before ws. l = before @ pat @ g @ [dquote] @ ws \<and> list_all isspace ws) \<and>
      (\<forall>before' g' ws'. l = before' @ pat @ g' @ [dquote] @ ws' \<and> list_all isspace ws'
          \<longrightarrow> length g \<le> length g')"
    then obtain before ws where l: "l = before @ pat @ g @ [dquote] @ ws" "list_all isspace ws"
      and least: "\<And>before' g' ws'. l = before' @ pat @ g' @ [dquote] @ ws' \<Longrightarrow> list_all isspace ws'
          \<Longrightarrow> length g \<le> length g'"
      by blast
    have sd: "s = before @ pat @ g @ [dquote]" using dec l by blast
    then have q: "s \<noteq> []" "last s = dquote" "butlast s = before @ pat @ g"
      by (simp_all add: butlast_append)
    obtain r where r: "after_last pat (butlast s) = Some r"
      using after_last_complete [of pat before g] q(3) by auto
    obtain b where b: "butlast s = b @ pat @ r" using after_last_sound [OF r] by blast
    then have "s = b @ pat @ r @ [dquote]" using q(1,2) by (metis append_assoc append_butlast_last_id)
    then have "l = b @ pat @ r @ [dquote] @ ws0" using ws0(1) by simp
    then have 1: "length g \<le> length r" using least ws0(2) by blast
    have 2: "length r \<le> length g" using after_last_shortest [OF r q(3)] .
    have "length (b @ pat) = length (before @ pat)" using b q(3) 1 2
      by (metis (no_types, lifting) append_assoc le_antisym length_append add_right_cancel)
    then have "r = g" using b q(3) by (metis append_assoc append_eq_append_conv)
    then show "ssid_match l = Some g" using m q r by simp
  qed
qed

section \<open>The wifi status parser\<close>

lemma matches_simps:
  "matches f [] = []"
  "matches f (l # ls) = (case f l of None \<Rightarrow> matches f ls | Some g \<Rightarrow> g # matches f ls)"
  "matches f (xs @ ys) = matches f xs @ matches f ys"
  by (simp_all add: matches_def List.map_filter_def split: option.splits)

lemma mac_match_nonempty: "mac_match l = Some g \<Longrightarrow> g \<noteq> []"
  by (auto simp: mac_match_def Let_def split: if_splits)

lemma found_both_wifi_line: "found_both st \<Longrightarrow> found_both (wifi_line st l)"
  by (cases st) (auto simp: Let_def falsy_def split: option.splits)

lemma found_both_foldl: "found_both st \<Longrightarrow> found_both (foldl wifi_line st ls)"
  by (induction ls arbitrary: st) (simp_all add: found_both_wifi_line)

text \<open>Up to the line that completes the pair, the loop is the plain iteration of its body;
  the lines after it are not read.\<close>

lemma wifi_scan_stops:
  assumes "\<not> found_both (foldl wifi_line st pre)" "found_both (foldl wifi_line st (pre @ [line]))"
  shows "wifi_scan st (pre @ line # post) = foldl wifi_line st (pre @ [line])"
  using assms
proof (induction pre arbitrary: st)
  case Nil
  then show ?case by (simp add: Let_def)
next
  case (Cons p pre)
  have "\<not> found_both (wifi_line st p)"
    using Cons.prems(1) found_both_foldl [of "wifi_line st p" pre] by auto
  then show ?case using Cons by (simp add: Let_def)
qed

lemma wifi_scan_exhausts:
  "\<not> found_both (foldl wifi_line st ls) \<Longrightarrow> wifi_scan st ls = foldl wifi_line st ls"
proof (induction ls arbitrary: st)
  case Nil
  then show ?case by simp
next
  case (Cons l ls)
  have "\<not> found_both (wifi_line st l)"
    using Cons.prems found_both_foldl [of "wifi_line st l" ls] by auto
  then show ?case using Cons by (simp add: Let_def)
qed

lemma last_match_snoc:
  "last_match f (ls @ [l]) = (case f l of Some g \<Rightarrow> Some g | None \<Rightarrow> last_match f ls)"
  by (simp add: last_match_def matches_simps split: option.splits)

lemma first_match_snoc:
  "first_match f (ls @ [l]) = (case first_match f ls of Some g \<Rightarrow> Some g | None \<Rightarrow> f l)"
  by (cases "matches f ls") (simp_all add: first_match_def matches_simps split: option.splits)

lemma first_match_mac_not_empty: "first_match mac_match ls \<noteq> Some []"
proof (induction ls)
  case Nil
  then show ?case by (simp add: first_match_def matches_simps)
next
  case (Cons l ls)
  then show ?case
    using mac_match_nonempty [of l]
    by (auto simp: first_match_def matches_simps split: option.splits list.splits)
qed

lemma ssid_state_snoc:
  "ssid_state (ls @ [l]) =
     (if falsy (ssid_state ls) then (case ssid_match l of Some g \<Rightarrow> Some g | None \<Rightarrow> ssid_state ls)
      else ssid_state ls)"
proof (cases "filter (\<lambda>g. g \<noteq> []) (matches ssid_match ls)")
  case Nil
  then show ?thesis
    by (auto simp: ssid_state_def seen_def chosen_ssid_def matches_simps falsy_def
        split: option.splits list.splits)
next
  case (Cons g gs)
  then have "g \<in> set (filter (\<lambda>g. g \<noteq> []) (matches ssid_match ls))" by simp
  then have "g \<noteq> []" "matches ssid_match ls \<noteq> []" by auto
  then show ?thesis using Cons
    by (auto simp: ssid_state_def seen_def chosen_ssid_def matches_simps falsy_def
        split: option.splits)
qed

lemma first_match_mac_snoc:
  "first_match mac_match (ls @ [l]) =
     (if falsy (first_match mac_match ls)
      then (case mac_match l of Some g \<Rightarrow> Some g | None \<Rightarrow> first_match mac_match ls)
      else first_match mac_match ls)"
  using first_match_mac_not_empty [of ls]
  by (auto simp: first_match_snoc falsy_def split: option.splits)

lemma foldl_wifi_line:
  "foldl wifi_line (None, None, None) ls =
     (last_match interface_match ls, ssid_state ls, first_match mac_match ls)"
proof (induction ls rule: rev_induct)
  case Nil
  then show ?case
    by (simp add: last_match_def first_match_def ssid_state_def seen_def matches_simps)
next
  case (snoc l ls)
  have "foldl wifi_line (None, None, None) (ls @ [l]) =
      wifi_line (last_match interface_match ls, ssid_state ls, first_match mac_match ls) l"
    by (simp add: snoc)
  also have "\<dots> = (last_match interface_match (ls @ [l]), ssid_state (ls @ [l]),
      first_match mac_match (ls @ [l]))"
    by (simp only: wifi_line.simps Let_def last_match_snoc ssid_state_snoc first_match_mac_snoc)
  finally show ?case .
qed

lemma found_both_iff:
  "found_both (foldl wifi_line (None, None, None) ls) \<longleftrightarrow> seen ssid_match ls \<and> seen mac_match ls"
  by (auto simp: foldl_wifi_line ssid_state_def first_match_def seen_def split: list.splits)

lemma shortest_prefix:
  assumes "P ls" "\<not> P []"
  shows "\<exists>pre line post. ls = pre @ line # post \<and> P (pre @ [line]) \<and> \<not> P pre"
  using assms(1)
proof (induction ls rule: rev_induct)
  case Nil
  then show ?case using assms(2) by simp
next
  case (snoc x xs)
  show ?case
  proof (cases "P xs")
    case True
    then obtain pre line post where "xs = pre @ line # post" "P (pre @ [line])" "\<not> P pre"
      using snoc.IH by blast
    then have "xs @ [x] = pre @ line # (post @ [x])" by simp
    then show ?thesis using \<open>P (pre @ [line])\<close> \<open>\<not> P pre\<close> by blast
  next
    case False
    have "xs @ [x] = xs @ x # []" by simp
    then show ?thesis using False snoc.prems by blast
  qed
qed

lemma first_match_append: "seen f xs \<Longrightarrow> first_match f (xs @ ys) = first_match f xs"
  by (cases "matches f xs") (simp_all add: first_match_def seen_def matches_simps(3))

lemma wifi_scan_at_first_pair:
  assumes "seen ssid_match (pre @ [line])" "seen mac_match (pre @ [line])"
    and "\<not> (seen ssid_match pre \<and> seen mac_match pre)"
  shows "wifi_scan (None, None, None) (pre @ line # post) =
     (last_match interface_match (pre @ [line]), Some (chosen_ssid (pre @ [line])),
      first_match mac_match (pre @ [line]))"
proof -
  have "wifi_scan (None, None, None) (pre @ line # post) =
      foldl wifi_line (None, None, None) (pre @ [line])"
    using assms by (intro wifi_scan_stops) (simp_all only: found_both_iff not_False_eq_True)
  then show ?thesis using assms(1) by (simp only: foldl_wifi_line ssid_state_def if_True)
qed

lemma wifi_scan_first_pair_lines:
  assumes "seen ssid_match ls" "seen mac_match ls"
  shows "\<exists>pre line post.
           ls = pre @ line # post
         \<and> seen ssid_match (pre @ [line]) \<and> seen mac_match (pre @ [line])
         \<and> (seen ssid_match pre \<and> seen mac_match pre) = False
         \<and> wifi_scan (None, None, None) ls =
             (last_match interface_match (pre @ [line]), Some (chosen_ssid (pre @ [line])),
              first_match mac_match (pre @ [line]))
         \<and> first_match mac_match (pre @ [line]) = first_match mac_match ls
         \<and> wifi_scan (None, None, None) ls = wifi_scan (None, None, None) (pre @ [line])"
proof -
  define P where "P = (\<lambda>xs. seen ssid_match xs \<and> seen mac_match xs)"
  have "P ls" "\<not> P []" using assms by (simp_all add: P_def seen_def matches_simps)
  then obtain pre line post where d: "ls = pre @ line # post" "P (pre @ [line])" "\<not> P pre"
    using shortest_prefix [of P ls] by blast
  then have p: "seen ssid_match (pre @ [line])" "seen mac_match (pre @ [line])"
    "\<not> (seen ssid_match pre \<and> seen mac_match pre)"
    by (simp_all add: P_def)
  have r: "\<And>post'. wifi_scan (None, None, None) (pre @ line # post') =
     (last_match interface_match (pre @ [line]), Some (chosen_ssid (pre @ [line])),
      first_match mac_match (pre @ [line]))"
    using p by (rule wifi_scan_at_first_pair)
  have "ls = (pre @ [line]) @ post" using d(1) by simp
  then have f: "first_match mac_match (pre @ [line]) = first_match mac_match ls"
    using first_match_append [OF p(2), of post] by simp
  show ?thesis
    using d(1) p r [of post] r [of "[]"] f by (intro exI [of _ pre] exI [of _ line] exI [of _ post]) simp
qed


text \<open>
  Claim C7. When the command succeeds and an SSID and an access-point MAC both occur in the
  lines of its output, \<open>get_wifi_info\<close> scans the lines in order and stops at the first line by
  which both have been found (they may come from different lines): the lines after it are
  not read, and the result is the interface of the last interface-name line up to and
  including that line (whatever block it opens), an SSID found up to there (the first one
  that is not empty) and the first MAC found.
\<close>

theorem wifi_scan_first_pair:
  assumes "check_output env [command_path env ''iwconfig'' ''/sbin/iwconfig''] = Inr text"
    and "seen ssid_match (splitlines text)" and "seen mac_match (splitlines text)"
  shows "\<exists>pre line post.
           splitlines text = pre @ line # post
         \<and> seen ssid_match (pre @ [line]) \<and> seen mac_match (pre @ [line])
         \<and> (seen ssid_match pre \<and> seen mac_match pre) = False
         \<and> get_wifi_info env =
             Inr (last_match interface_match (pre @ [line]), Some (chosen_ssid (pre @ [line])),
                  first_match mac_match (pre @ [line]))
         \<and> first_match mac_match (pre @ [line]) = first_match mac_match (splitlines text)
         \<and> get_wifi_info env = Inr (wifi_scan (None, None, None) (pre @ [line]))"
proof -
  have g: "get_wifi_info env = Inr (wifi_scan (None, None, None) (splitlines text))"
    using assms(1) by (simp add: get_wifi_info_def)
  obtain pre line post where d: "splitlines text = pre @ line # post"
    "seen ssid_match (pre @ [line])" "seen mac_match (pre @ [line])"
    "(seen ssid_match pre \<and> seen mac_match pre) = False"
    "wifi_scan (None, None, None) (splitlines text) =
       (last_match interface_match (pre @ [line]), Some (chosen_ssid (pre @ [line])),
        first_match mac_match (pre @ [line]))"
    "first_match mac_match (pre @ [line]) = first_match mac_match (splitlines text)"
    "wifi_scan (None, None, None) (splitlines text) = wifi_scan (None, None, None) (pre @ [line])"
    using wifi_scan_first_pair_lines [OF assms(2,3)] by blast
  have g1: "get_wifi_info env =
             Inr (last_match interface_match (pre @ [line]), Some (chosen_ssid (pre @ [line])),
                  first_match mac_match (pre @ [line]))"
    unfolding g d(5) ..
  have g2: "get_wifi_info env = Inr (wifi_scan (None, None, None) (pre @ [line]))"
    unfolding g d(7) ..
  show ?thesis
    by (intro exI [of _ pre] exI [of _ line] exI [of _ post] conjI d(1,2,3,4,6) g1 g2)
qed

theorem wifi_scan_first_pair_witness:
  "seen ssid_match (splitlines
          (''wlan0     IEEE 802.11abgn  ESSID:'' @ [dquote] @ ''home'' @ [dquote] @ ''  '' @ [LF] @
           ''          Mode:Managed  Frequency:2.437 GHz  Access Point: AA:BB:CC:DD:EE:FF   '' @ [LF] @
           ''          Bit Rate=65 Mb/s   Tx-Power=15 dBm   '' @ [LF]))
   \<and> seen mac_match (splitlines
          (''wlan0     IEEE 802.11abgn  ESSID:'' @ [dquote] @ ''home'' @ [dquote] @ ''  '' @ [LF] @
           ''          Mode:Managed  Frequency:2.437 GHz  Access Point: AA:BB:CC:DD:EE:FF   '' @ [LF] @
           ''          Bit Rate=65 Mb/s   Tx-Power=15 dBm   '' @ [LF]))
   \<and> (\<exists>pre line post.
         splitlines
          (''wlan0     IEEE 802.11abgn  ESSID:'' @ [dquote] @ ''home'' @ [dquote] @ ''  '' @ [LF] @
           ''          Mode:Managed  Frequency:2.437 GHz  Access Point: AA:BB:CC:DD:EE:FF   '' @ [LF] @
           ''          Bit Rate=65 Mb/s   Tx-Power=15 dBm   '' @ [LF]) = pre @ line # post
       \<and> Inr (Some ''wlan0'', Some ''home'', Some ''AA:BB:CC:DD:EE:FF'') =
             Inr (last_match interface_match (pre @ [line]), Some (chosen_ssid (pre @ [line])),
                  first_match mac_match (pre @ [line]))
       \<and> get_wifi_info
             \<lparr>has_PATH = True, find_executable = (\<lambda>c. Some (''/sbin/'' @ c)),
        check_output = (\<lambda>a. Inr
          (''wlan0     IEEE 802.11abgn  ESSID:'' @ [dquote] @ ''home'' @ [dquote] @ ''  '' @ [LF] @
              ''          Mode:Managed  Frequency:2.437 GHz  Access Point: AA:BB:CC:DD:EE:FF   '' @ [LF] @
              ''          Bit Rate=65 Mb/s   Tx-Power=15 dBm   '' @ [LF])),
        gethostbyname = (\<lambda>d. Inl SocketError), read_file = (\<lambda>p. Inl IOError)\<rparr> = Inr (wifi_scan (None, None, None) (pre @ [line])))
   \<and> get_wifi_info
       \<lparr>has_PATH = True, find_executable = (\<lambda>c. Some (''/sbin/'' @ c)),
        check_output = (\<lambda>a. Inr
          (''wlan0     IEEE 802.11abgn  ESSID:'' @ [dquote] @ ''home'' @ [dquote] @ ''  '' @ [LF] @
              ''          Mode:Managed  Frequency:2.437 GHz  Access Point: AA:BB:CC:DD:EE:FF   '' @ [LF] @
              ''          Bit Rate=65 Mb/s   Tx-Power=15 dBm   '' @ [LF])),
        gethostbyname = (\<lambda>d. Inl SocketError), read_file = (\<lambda>p. Inl IOError)\<rparr>
     = Inr (Some ''wlan0'', Some ''home'', Some ''AA:BB:CC:DD:EE:FF'')
   \<and> get_wifi_info
       \<lparr>has_PATH = True, find_executable = (\<lambda>c. Some (''/sbin/'' @ c)),
        check_output = (\<lambda>a. Inr
          (''wlan0     IEEE 802.11abgn  ESSID:'' @ [dquote] @ ''home'' @ [dquote] @ ''  '' @ [LF] @
              ''eth0      no wireless extensions.'' @ [LF] @
              ''          Mode:Managed  Frequency:2.437 GHz  Access Point: AA:BB:CC:DD:EE:FF   '' @ [LF])),
        gethostbyname = (\<lambda>d. Inl SocketError), read_file = (\<lambda>p. Inl IOError)\<rparr>
     = Inr (Some ''eth0'', Some ''home'', Some ''AA:BB:CC:DD:EE:FF'')"
proof -
  define out where "out =
          ''wlan0     IEEE 802.11abgn  ESSID:'' @ [dquote] @ ''home'' @ [dquote] @ ''  '' @ [LF] @
           ''          Mode:Managed  Frequency:2.437 GHz  Access Point: AA:BB:CC:DD:EE:FF   '' @ [LF] @
           ''          Bit Rate=65 Mb/s   Tx-Power=15 dBm   '' @ [LF]"
  define env where "env =
       \<lparr>has_PATH = True, find_executable = (\<lambda>c. Some (''/sbin/'' @ c)),
        check_output = (\<lambda>a. Inr
          (out)),
        gethostbyname = (\<lambda>d. Inl SocketError), read_file = (\<lambda>p. Inl IOError)\<rparr>"
  have c: "check_output env [command_path env ''iwconfig'' ''/sbin/iwconfig''] = Inr out"
    by (simp add: env_def)
  have s: "seen ssid_match (splitlines out)" unfolding out_def by code_simp
  have m: "seen mac_match (splitlines out)" unfolding out_def by code_simp
  have v: "get_wifi_info env = Inr (Some ''wlan0'', Some ''home'', Some ''AA:BB:CC:DD:EE:FF'')"
    unfolding env_def out_def by code_simp
  have "\<exists>pre line post. splitlines out = pre @ line # post
       \<and> Inr (Some ''wlan0'', Some ''home'', Some ''AA:BB:CC:DD:EE:FF'') =
             Inr (last_match interface_match (pre @ [line]), Some (chosen_ssid (pre @ [line])),
                  first_match mac_match (pre @ [line]))
       \<and> get_wifi_info env = Inr (wifi_scan (None, None, None) (pre @ [line]))"
    using wifi_scan_first_pair [OF c s m] unfolding v by blast
  moreover have "get_wifi_info
       \<lparr>has_PATH = True, find_executable = (\<lambda>c. Some (''/sbin/'' @ c)),
        check_output = (\<lambda>a. Inr
          (''wlan0     IEEE 802.11abgn  ESSID:'' @ [dquote] @ ''home'' @ [dquote] @ ''  '' @ [LF] @
              ''eth0      no wireless extensions.'' @ [LF] @
              ''          Mode:Managed  Frequency:2.437 GHz  Access Point: AA:BB:CC:DD:EE:FF   '' @ [LF])),
        gethostbyname = (\<lambda>d. Inl SocketError), read_file = (\<lambda>p. Inl IOError)\<rparr>
     = Inr (Some ''eth0'', Some ''home'', Some ''AA:BB:CC:DD:EE:FF'')"
    by code_simp
  ultimately show ?thesis using s m v unfolding env_def out_def by blast
qed

lemma wifi_scan_without_pair:
  assumes "\<not> (seen ssid_match ls \<and> seen mac_match ls)"
  shows "wifi_scan (None, None, None) ls =
     (last_match interface_match ls, ssid_state ls, first_match mac_match ls)"
proof -
  have "\<not> found_both (foldl wifi_line (None, None, None) ls)"
    using assms by (simp only: found_both_iff not_False_eq_True)
  then have "wifi_scan (None, None, None) ls = foldl wifi_line (None, None, None) ls"
    by (rule wifi_scan_exhausts)
  then show ?thesis by (simp only: foldl_wifi_line)
qed

text \<open>
  Claim C2 asks for three absent fields whenever the scan ends without both an SSID and a
  MAC, as the docstring of \<open>get_wifi_info\<close> promises for a machine that is not connected.
  The loop returns what it has gathered instead: on the output of iwconfig for an interface
  that is not associated, the interface name comes back with no SSID and no MAC.
\<close>

theorem wifi_scan_partial_result:
  "wifi_scan (None, None, None)
     (splitlines (''wlan0     IEEE 802.11bgn  ESSID:off/any  '' @ [LF] @
                  ''          Mode:Managed  Access Point: Not-Associated   Tx-Power=20 dBm   '' @ [LF]))
   = (Some ''wlan0'', None, None)"
  by code_simp

section \<open>The default route parser\<close>

lemma route_scan_find:
  "route_scan ls =
     (case List.find is_default_route (map route_fields ls) of
        None \<Rightarrow> (None, None)
      | Some fs \<Rightarrow> (Some (fs ! 4), Some (fs ! 2)))"
  by (induction ls) (auto simp: Let_def route_fields_def is_default_route_def)

text \<open>
  Claim C8. The default-route parser splits every line at whitespace, passes over the lines
  with fewer than seven fields, and returns the fifth field as interface and the third as
  gateway of the first line whose first, second and fourth fields are \<^verbatim>\<open>default\<close>, \<^verbatim>\<open>via\<close>
  and \<^verbatim>\<open>dev\<close>; later such lines are not read. Without such a line both are absent.
\<close>

theorem route_scan_first_default:
  "route_scan (splitlines text) =
     (case List.find is_default_route (map route_fields (splitlines text)) of
        None \<Rightarrow> (None, None)
      | Some fs \<Rightarrow> (Some (fs ! 4), Some (fs ! 2)))
   \<and> (check_output env [command_path env ''ip'' ''/sbin/ip'', ''route'', ''show''] = Inr text
        \<longrightarrow> get_default_route env = Inr (route_scan (splitlines text)))"
  by (simp add: route_scan_find get_default_route_def)

theorem route_scan_first_default_witness:
  "route_scan (splitlines (''10.21.160.0/22 dev wlan0 proto kernel scope link src 10.21.160.7'' @ [LF] @
                           ''default via 10.21.160.1 dev wlan0 proto static metric 600'' @ [LF] @
                           ''default via 192.168.1.1 dev eth0 proto static metric 700'' @ [LF]))
     = (Some ''wlan0'', Some ''10.21.160.1'')
   \<and> route_scan (splitlines (''10.21.160.0/22 dev wlan0 proto kernel scope link src 10.21.160.7'' @ [LF]))
     = (None, None)"
proof -
  have a: "(case List.find is_default_route (map route_fields
       (splitlines (''10.21.160.0/22 dev wlan0 proto kernel scope link src 10.21.160.7'' @ [LF] @
                           ''default via 10.21.160.1 dev wlan0 proto static metric 600'' @ [LF] @
                           ''default via 192.168.1.1 dev eth0 proto static metric 700'' @ [LF]))) of
        None \<Rightarrow> (None, None)
      | Some fs \<Rightarrow> (Some (fs ! 4), Some (fs ! 2))) = (Some ''wlan0'', Some ''10.21.160.1'')"
    by code_simp
  have b: "(case List.find is_default_route (map route_fields
       (splitlines (''10.21.160.0/22 dev wlan0 proto kernel scope link src 10.21.160.7'' @ [LF]))) of
        None \<Rightarrow> (None, None)
      | Some fs \<Rightarrow> (Some (fs ! 4), Some (fs ! 2))) = (None, None)"
    by code_simp
  show ?thesis
    using route_scan_first_default [THEN conjunct1] by (simp only: a b)
qed

section \<open>The ARP table\<close>

lemma arp_loop_step:
  "arp_loop False table (line # rest) =
     arp_loop False (case arp_line_entry line of None \<Rightarrow> table | Some e \<Rightarrow> table(ip e \<mapsto> e)) rest"
  by (simp add: arp_line_entry_def split: list.splits sum.splits)

lemma arp_loop_lookup:
  "arp_loop False table ls k =
     (case last_entry_for k (List.map_filter arp_line_entry ls) of
        None \<Rightarrow> table k
      | Some e \<Rightarrow> Some e)"
proof (induction ls arbitrary: table)
  case Nil
  then show ?case by (simp add: last_entry_for_def List.map_filter_def)
next
  case (Cons l ls)
  show ?case
    unfolding arp_loop_step Cons
    by (auto simp: last_entry_for_def List.map_filter_def split: option.splits list.splits)
qed

lemma arp_loop_header: "arp_loop True table ls = arp_loop False table (tl ls)"
  by (cases ls) simp_all

text \<open>
  Claim C6. The ARP parser passes over the first line whatever it holds. Each later line is
  split at whitespace and kept only if it has exactly six fields of which the second and
  third parse as base-16 integers (\<open>arp_line_entry\<close>); a line that is not kept leaves no
  trace. A kept line gives an entry with the MAC in upper case under the key of its first
  field, and for a key that occurs on several kept lines the entry of the last one stays.
\<close>

theorem arp_loop_table:
  "arp_loop True Map.empty ls k = last_entry_for k (arp_entries ls)
   \<and> (read_file env path = Inr content
        \<longrightarrow> get_arp_table env path = Inr (arp_loop True Map.empty (file_lines content)))
   \<and> (arp_line_entry line = Some e) =
       (\<exists>f1 f2 f3 f4 f5 f6 hw fl.
          split_ws (rstrip [CR, LF] line) = [f1, f2, f3, f4, f5, f6]
        \<and> py_int 16 f2 = Inr hw \<and> py_int 16 f3 = Inr fl
        \<and> e = \<lparr>ip = f1, hwtype = hw, flags = fl, mac = upper f4, netmask = f5, iface = f6\<rparr>)"
proof -
  have "arp_loop True Map.empty ls k = last_entry_for k (arp_entries ls)"
    by (simp add: arp_loop_header arp_loop_lookup arp_entries_def split: option.splits)
  moreover have "(arp_line_entry line = Some e) =
       (\<exists>f1 f2 f3 f4 f5 f6 hw fl.
          split_ws (rstrip [CR, LF] line) = [f1, f2, f3, f4, f5, f6]
        \<and> py_int 16 f2 = Inr hw \<and> py_int 16 f3 = Inr fl
        \<and> e = \<lparr>ip = f1, hwtype = hw, flags = fl, mac = upper f4, netmask = f5, iface = f6\<rparr>)"
    by (auto simp: arp_line_entry_def split: list.splits sum.splits)
  moreover have "read_file env path = Inr content
        \<longrightarrow> get_arp_table env path = Inr (arp_loop True Map.empty (file_lines content))"
    by (simp add: get_arp_table_def)
  ultimately show ?thesis by blast
qed

theorem arp_loop_table_witness:
  "arp_loop True Map.empty
     (file_lines (''10.9.9.9        0x1         0x2         11:22:33:44:55:66     *        eth0'' @ [LF] @
                  ''10.0.0.5 0x1 0x2 aa:bb:cc:dd:ee:ff * eth0'' @ [LF] @
                  ''10.0.0.6 0x1 0xzz aa:bb:cc:dd:ee:00 * eth0'' @ [LF] @
                  ''10.0.0.7 0x1 0x2 aa:bb:cc:dd:ee:01 *'' @ [LF] @
                  ''10.0.0.5 0x1 0x6 aa:bb:cc:dd:ee:02 * wlan0'' @ [LF]))
     ''10.0.0.5''
    = Some \<lparr>ip = ''10.0.0.5'', hwtype = 1, flags = 6, mac = ''AA:BB:CC:DD:EE:02'',
             netmask = ''*'', iface = ''wlan0''\<rparr>
   \<and> arp_loop True Map.empty
     (file_lines (''10.9.9.9        0x1         0x2         11:22:33:44:55:66     *        eth0'' @ [LF] @
                  ''10.0.0.5 0x1 0x2 aa:bb:cc:dd:ee:ff * eth0'' @ [LF] @
                  ''10.0.0.6 0x1 0xzz aa:bb:cc:dd:ee:00 * eth0'' @ [LF] @
                  ''10.0.0.7 0x1 0x2 aa:bb:cc:dd:ee:01 *'' @ [LF] @
                  ''10.0.0.5 0x1 0x6 aa:bb:cc:dd:ee:02 * wlan0'' @ [LF]))
     ''10.9.9.9''
    = None
   \<and> arp_loop True Map.empty
     (file_lines (''10.9.9.9        0x1         0x2         11:22:33:44:55:66     *        eth0'' @ [LF] @
                  ''10.0.0.5 0x1 0x2 aa:bb:cc:dd:ee:ff * eth0'' @ [LF] @
                  ''10.0.0.6 0x1 0xzz aa:bb:cc:dd:ee:00 * eth0'' @ [LF] @
                  ''10.0.0.7 0x1 0x2 aa:bb:cc:dd:ee:01 *'' @ [LF] @
                  ''10.0.0.5 0x1 0x6 aa:bb:cc:dd:ee:02 * wlan0'' @ [LF]))
     ''10.0.0.6''
    = None
   \<and> arp_loop True Map.empty
     (file_lines (''10.9.9.9        0x1         0x2         11:22:33:44:55:66     *        eth0'' @ [LF] @
                  ''10.0.0.5 0x1 0x2 aa:bb:cc:dd:ee:ff * eth0'' @ [LF] @
                  ''10.0.0.6 0x1 0xzz aa:bb:cc:dd:ee:00 * eth0'' @ [LF] @
                  ''10.0.0.7 0x1 0x2 aa:bb:cc:dd:ee:01 *'' @ [LF] @
                  ''10.0.0.5 0x1 0x6 aa:bb:cc:dd:ee:02 * wlan0'' @ [LF]))
     ''10.0.0.7''
    = None
   \<and> arp_loop True Map.empty
     (file_lines (''IP address       HW type     Flags       HW address            Mask     Device'' @ [LF] @
                  ''10.0.0.5 0x1 0x2 aa:bb:cc:dd:ee:ff * eth0'' @ [LF]))
     ''10.0.0.5''
    = Some \<lparr>ip = ''10.0.0.5'', hwtype = 1, flags = 2, mac = ''AA:BB:CC:DD:EE:FF'',
             netmask = ''*'', iface = ''eth0''\<rparr>"
proof -
  have f0: "last_entry_for ''10.0.0.5'' (arp_entries
     (file_lines (''10.9.9.9        0x1         0x2         11:22:33:44:55:66     *        eth0'' @ [LF] @
                  ''10.0.0.5 0x1 0x2 aa:bb:cc:dd:ee:ff * eth0'' @ [LF] @
                  ''10.0.0.6 0x1 0xzz aa:bb:cc:dd:ee:00 * eth0'' @ [LF] @
                  ''10.0.0.7 0x1 0x2 aa:bb:cc:dd:ee:01 *'' @ [LF] @
                  ''10.0.0.5 0x1 0x6 aa:bb:cc:dd:ee:02 * wlan0'' @ [LF])))
    = Some \<lparr>ip = ''10.0.0.5'', hwtype = 1, flags = 6, mac = ''AA:BB:CC:DD:EE:02'',
             netmask = ''*'', iface = ''wlan0''\<rparr>"
    by code_simp
  have f1: "last_entry_for ''10.9.9.9'' (arp_entries
     (file_lines (''10.9.9.9        0x1         0x2         11:22:33:44:55:66     *        eth0'' @ [LF] @
                  ''10.0.0.5 0x1 0x2 aa:bb:cc:dd:ee:ff * eth0'' @ [LF] @
                  ''10.0.0.6 0x1 0xzz aa:bb:cc:dd:ee:00 * eth0'' @ [LF] @
                  ''10.0.0.7 0x1 0x2 aa:bb:cc:dd:ee:01 *'' @ [LF] @
                  ''10.0.0.5 0x1 0x6 aa:bb:cc:dd:ee:02 * wlan0'' @ [LF])))
    = None"
    by code_simp
  have f2: "last_entry_for ''10.0.0.6'' (arp_entries
     (file_lines (''10.9.9.9        0x1         0x2         11:22:33:44:55:66     *        eth0'' @ [LF] @
                  ''10.0.0.5 0x1 0x2 aa:bb:cc:dd:ee:ff * eth0'' @ [LF] @
                  ''10.0.0.6 0x1 0xzz aa:bb:cc:dd:ee:00 * eth0'' @ [LF] @
                  ''10.0.0.7 0x1 0x2 aa:bb:cc:dd:ee:01 *'' @ [LF] @
                  ''10.0.0.5 0x1 0x6 aa:bb:cc:dd:ee:02 * wlan0'' @ [LF])))
    = None"
    by code_simp
  have f3: "last_entry_for ''10.0.0.7'' (arp_entries
     (file_lines (''10.9.9.9        0x1         0x2         11:22:33:44:55:66     *        eth0'' @ [LF] @
                  ''10.0.0.5 0x1 0x2 aa:bb:cc:dd:ee:ff * eth0'' @ [LF] @
                  ''10.0.0.6 0x1 0xzz aa:bb:cc:dd:ee:00 * eth0'' @ [LF] @
                  ''10.0.0.7 0x1 0x2 aa:bb:cc:dd:ee:01 *'' @ [LF] @
                  ''10.0.0.5 0x1 0x6 aa:bb:cc:dd:ee:02 * wlan0'' @ [LF])))
    = None"
    by code_simp
  have f4: "last_entry_for ''10.0.0.5'' (arp_entries
     (file_lines (''IP address       HW type     Flags       HW address            Mask     Device'' @ [LF] @
                  ''10.0.0.5 0x1 0x2 aa:bb:cc:dd:ee:ff * eth0'' @ [LF])))
    = Some \<lparr>ip = ''10.0.0.5'', hwtype = 1, flags = 2, mac = ''AA:BB:CC:DD:EE:FF'',
             netmask = ''*'', iface = ''eth0''\<rparr>"
    by code_simp
  show ?thesis
    using arp_loop_table [THEN conjunct1] by (simp only: f0 f1 f2 f3 f4)
qed

lemma upper_no_lower: "\<not> list_ex is_lower (upper s)"
proof -
  have "\<And>c. \<not> is_lower (to_upper c)"
    by (auto simp: is_lower_def to_upper_def Let_def)
  then show ?thesis by (simp add: upper_def list_ex_iff)
qed

lemma arp_line_entry_fields:
  "arp_line_entry line = Some e \<Longrightarrow> \<not> list_ex is_lower (mac e)"
  by (auto simp: arp_line_entry_def upper_no_lower split: list.splits sum.splits)

lemma last_entry_for_Some:
  "last_entry_for k es = Some e \<Longrightarrow> ip e = k \<and> e \<in> set es"
proof -
  assume a: "last_entry_for k es = Some e"
  then obtain r where "rev (filter (\<lambda>e. ip e = k) es) = e # r"
    by (auto simp: last_entry_for_def split: list.splits)
  then have "e \<in> set (rev (filter (\<lambda>e. ip e = k) es))" by simp
  then show ?thesis by simp
qed

text \<open>
  Claim C10. In every table that \<open>get_arp_table\<close> returns, the entry under a key has that
  key as its \<open>ip\<close>; it has the six fields of the record (\<open>hwtype\<close> and \<open>flags\<close> are integers
  by their type), and its \<open>mac\<close> holds no lower-case letter.
\<close>

theorem arp_table_invariant:
  assumes "get_arp_table env path = Inr table" "table k = Some e"
  shows "ip e = k
       \<and> e = \<lparr>ip = ip e, hwtype = hwtype e, flags = flags e, mac = mac e,
              netmask = netmask e, iface = iface e\<rparr>
       \<and> \<not> list_ex is_lower (mac e)"
proof -
  obtain content where "table = arp_loop True Map.empty (file_lines content)"
    using assms(1) by (auto simp: get_arp_table_def split: sum.splits)
  then have "last_entry_for k (List.map_filter arp_line_entry (tl (file_lines content))) = Some e"
    using assms(2) by (simp add: arp_loop_header arp_loop_lookup split: option.splits)
  then have "ip e = k" "e \<in> set (List.map_filter arp_line_entry (tl (file_lines content)))"
    using last_entry_for_Some by blast+
  then obtain line where "arp_line_entry line = Some e"
    by (auto simp: List.map_filter_def)
  then have "\<not> list_ex is_lower (mac e)" by (rule arp_line_entry_fields)
  then show ?thesis using \<open>ip e = k\<close> by simp
qed

theorem arp_table_invariant_witness:
  "get_arp_table
     \<lparr>has_PATH = True, find_executable = (\<lambda>c. None), check_output = (\<lambda>a. Inl OSError),
      gethostbyname = (\<lambda>d. Inl SocketError),
      read_file = (\<lambda>p. Inr (''IP address       HW type     Flags       HW address            Mask     Device'' @ [LF] @
                  ''10.0.0.5 0x1 0x2 aa:bb:cc:dd:ee:ff * eth0'' @ [LF]))\<rparr>
     ''/proc/net/arp''
   = Inr (arp_loop True Map.empty (file_lines
        (''IP address       HW type     Flags       HW address            Mask     Device'' @ [LF] @
         ''10.0.0.5 0x1 0x2 aa:bb:cc:dd:ee:ff * eth0'' @ [LF])))
   \<and> arp_loop True Map.empty (file_lines
        (''IP address       HW type     Flags       HW address            Mask     Device'' @ [LF] @
         ''10.0.0.5 0x1 0x2 aa:bb:cc:dd:ee:ff * eth0'' @ [LF])) ''10.0.0.5''
     = Some \<lparr>ip = ''10.0.0.5'', hwtype = 1, flags = 2, mac = ''AA:BB:CC:DD:EE:FF'',
              netmask = ''*'', iface = ''eth0''\<rparr>
   \<and> ip \<lparr>ip = ''10.0.0.5'', hwtype = 1, flags = 2, mac = ''AA:BB:CC:DD:EE:FF'',
              netmask = ''*'', iface = ''eth0''\<rparr> = ''10.0.0.5''
   \<and> list_ex is_lower (mac \<lparr>ip = ''10.0.0.5'', hwtype = 1, flags = 2, mac = ''AA:BB:CC:DD:EE:FF'',
              netmask = ''*'', iface = ''eth0''\<rparr>) = False"
proof -
  define env where "env = \<lparr>has_PATH = True, find_executable = (\<lambda>c. None), check_output = (\<lambda>a. Inl OSError),
      gethostbyname = (\<lambda>d. Inl SocketError),
      read_file = (\<lambda>p. Inr (''IP address       HW type     Flags       HW address            Mask     Device'' @ [LF] @
                  ''10.0.0.5 0x1 0x2 aa:bb:cc:dd:ee:ff * eth0'' @ [LF]))\<rparr>"
  define table where "table = arp_loop True Map.empty (file_lines
        (''IP address       HW type     Flags       HW address            Mask     Device'' @ [LF] @
         ''10.0.0.5 0x1 0x2 aa:bb:cc:dd:ee:ff * eth0'' @ [LF]))"
  define e where "e = \<lparr>ip = ''10.0.0.5'', hwtype = 1, flags = 2, mac = ''AA:BB:CC:DD:EE:FF'',
              netmask = ''*'', iface = ''eth0''\<rparr>"
  have 1: "get_arp_table env ''/proc/net/arp'' = Inr table"
    by (simp add: get_arp_table_def env_def table_def)
  have 2: "table ''10.0.0.5'' = Some e"
    unfolding table_def e_def by code_simp
  have "ip e = ''10.0.0.5'' \<and> list_ex is_lower (mac e) = False"
    using arp_table_invariant [OF 1 2] by simp
  then show ?thesis using 1 2 unfolding env_def table_def e_def by blast
qed

text \<open>
  Claim C9. When the command cannot be run (OSError, as for a missing executable) or exits
  with a non-zero status (CalledProcessError), \<open>get_wifi_info\<close>, \<open>get_default_route\<close> and
  \<open>dig_ip\<close> return their all-absent value, and when the resolver fails (\<^verbatim>\<open>socket.error\<close> or a
  subclass) \<open>dns_query\<close> returns \<open>None\<close>; in each case the function returns and no exception
  leaves it.
\<close>

theorem lookups_absent_on_failure:
  assumes "command_failure e"
  shows "(check_output env [command_path env ''iwconfig'' ''/sbin/iwconfig''] = Inl e
            \<longrightarrow> get_wifi_info env = Inr (None, None, None))
       \<and> (check_output env [command_path env ''ip'' ''/sbin/ip'', ''route'', ''show''] = Inl e
            \<longrightarrow> get_default_route env = Inr (None, None))
       \<and> (check_output env [command_path env ''dig'' ''/usr/bin/dig'', ''+short'', ''+time=1'',
                              ''+tries=2'', domain] = Inl e
            \<longrightarrow> dig_ip env domain = Inr None)
       \<and> (gethostbyname env domain = Inl SocketError \<longrightarrow> dns_query env domain = Inr None)"
  using assms by (simp add: get_wifi_info_def get_default_route_def dig_ip_def dns_query_def Let_def)

theorem lookups_absent_on_failure_witness:
  "command_failure OSError \<and> command_failure CalledProcessError
   \<and> get_wifi_info \<lparr>has_PATH = False, find_executable = (\<lambda>c. None), check_output = (\<lambda>a. Inl OSError),
        gethostbyname = (\<lambda>d. Inl SocketError), read_file = (\<lambda>p. Inl IOError)\<rparr> = Inr (None, None, None)
   \<and> get_default_route \<lparr>has_PATH = True, find_executable = (\<lambda>c. Some (''/sbin/'' @ c)),
        check_output = (\<lambda>a. Inl CalledProcessError),
        gethostbyname = (\<lambda>d. Inl SocketError), read_file = (\<lambda>p. Inl IOError)\<rparr> = Inr (None, None)
   \<and> dig_ip \<lparr>has_PATH = False, find_executable = (\<lambda>c. None), check_output = (\<lambda>a. Inl OSError),
        gethostbyname = (\<lambda>d. Inl SocketError), read_file = (\<lambda>p. Inl IOError)\<rparr> ''example.org'' = Inr None
   \<and> dns_query \<lparr>has_PATH = False, find_executable = (\<lambda>c. None), check_output = (\<lambda>a. Inl OSError),
        gethostbyname = (\<lambda>d. Inl SocketError), read_file = (\<lambda>p. Inl IOError)\<rparr> ''example.org'' = Inr None"
proof -
  have f: "command_failure OSError" "command_failure CalledProcessError"
    by (simp_all add: command_failure_def)
  show ?thesis
    using f lookups_absent_on_failure [OF f(1), of
        "\<lparr>has_PATH = False, find_executable = (\<lambda>c. None), check_output = (\<lambda>a. Inl OSError),
          gethostbyname = (\<lambda>d. Inl SocketError), read_file = (\<lambda>p. Inl IOError)\<rparr>" "''example.org''"]
      lookups_absent_on_failure [OF f(2), of
        "\<lparr>has_PATH = True, find_executable = (\<lambda>c. Some (''/sbin/'' @ c)),
          check_output = (\<lambda>a. Inl CalledProcessError),
          gethostbyname = (\<lambda>d. Inl SocketError), read_file = (\<lambda>p. Inl IOError)\<rparr>" "''example.org''"]
    by simp
qed

end
